theory Spec2Isabelle
  imports Main "HOL-Library.AList"
begin

section \<open>Shared data model (baseCache)\<close>

text \<open>
  Go's \<open>interface{}\<close> values may be \<open>nil\<close>: a value is an \<open>'v option\<close> with \<open>None\<close> for
  \<open>nil\<close>. An \<open>error\<close> result is an \<open>error option\<close>, again with \<open>None\<close> for \<open>nil\<close>, and a
  Go result pair \<open>(interface{}, error)\<close> is a pair of the two.
  Instants (\<open>time.Time\<close>) and durations are integers (nanoseconds); \<open>After\<close> and \<open>Before\<close>
  are the strict orders. Every operation takes the instant \<open>now\<close> that \<open>c.clock.Now()\<close>
  returns while it runs (a controlled clock).
\<close>

datatype error = KeyNotFoundError | OtherError nat

type_synonym 'v result = "'v option \<times> error option"

text \<open>
  The hooks of the configuration are opaque callbacks. A call of \<open>addedFunc\<close>,
  \<open>evictedFunc\<close> or \<open>purgeVisitorFunc\<close> is recorded in the trace \<open>events\<close> of the cache,
  and the configuration says whether the hook is set (non-nil).
\<close>

datatype ('k, 'v) event =
    Added 'k "'v option"
  | Evicted 'k "'v option"
  | PurgeVisited 'k "'v option"

text \<open>
  The fields of \<open>baseCache\<close> that the two variants read. The declaration of \<open>baseCache\<close>
  is not among the sources: \<open>simple.go\<close> reads the limit as \<open>c.size\<close> (here \<open>c_size\<close>), the
  recency variant reads it as \<open>c.capacity\<close>.
\<close>

record ('k, 'v) baseCache =
  c_size :: int
  capacity :: int
  expiration :: "int option"
  serializeFunc :: "('k \<Rightarrow> 'v option \<Rightarrow> 'v result) option"
  deserializeFunc :: "('k \<Rightarrow> 'v option \<Rightarrow> 'v result) option"
  loaderExpireFunc :: "('k \<Rightarrow> 'v option \<times> int option \<times> error option) option"
  addedFunc :: bool
  evictedFunc :: bool
  purgeVisitorFunc :: bool

text \<open>The mutable part of \<open>baseCache\<close>: the two counters of \<open>c.stats\<close> and the hook trace.\<close>

record ('k, 'v) cacheState =
  hitCount :: nat
  missCount :: nat
  events :: "('k, 'v) event list"

definition IncrHitCount :: "('k, 'v, 'z) cacheState_scheme \<Rightarrow> ('k, 'v, 'z) cacheState_scheme" where
  "IncrHitCount c = c\<lparr>hitCount := hitCount c + 1\<rparr>"

definition IncrMissCount :: "('k, 'v, 'z) cacheState_scheme \<Rightarrow> ('k, 'v, 'z) cacheState_scheme" where
  "IncrMissCount c = c\<lparr>missCount := missCount c + 1\<rparr>"

definition call_hook ::
  "bool \<Rightarrow> ('k, 'v) event \<Rightarrow> ('k, 'v, 'z) cacheState_scheme \<Rightarrow> ('k, 'v, 'z) cacheState_scheme" where
  "call_hook hook ev c = (if hook then c\<lparr>events := events c @ [ev]\<rparr> else c)"

text \<open>
  Modelled from the spec: \<open>baseCache.load\<close> and the load group behind it are not among the
  sources. This is the Load Coordinator of the spec for a caller that finds no in-flight
  record, which is every caller of a sequential run: it invokes the fetch function once,
  hands the result to the callback \<open>cb\<close> (which writes the value back into the cache) and
  returns the callback's result with \<open>freshlyFetched = True\<close>.
\<close>

definition load ::
  "('k \<Rightarrow> 'v option \<times> int option \<times> error option) \<Rightarrow> 'k \<Rightarrow>
   ('v option \<Rightarrow> int option \<Rightarrow> error option \<Rightarrow> 's \<Rightarrow> 'v result \<times> 's) \<Rightarrow> bool \<Rightarrow> 's \<Rightarrow>
   ('v option \<times> bool \<times> error option) \<times> 's" where
  "load fetchFn k cb isWait c =
     (case fetchFn k of (v, expir, e) \<Rightarrow>
        (case cb v expir e c of ((v', err), c') \<Rightarrow> ((v', True, err), c')))"

section \<open>The unordered variant (simple.go)\<close>

record 'v simpleItem =
  item_value :: "'v option"
  item_expiration :: "int option"

text \<open>
  The Go map \<open>store\<close> is an association list with distinct keys, in the order in which a
  \<open>range\<close> loop visits it. Go leaves that order unspecified; the statements below hold for
  every order.
\<close>

record ('k, 'v) SimpleCache = "('k, 'v) cacheState" +
  store :: "('k \<times> 'v simpleItem) list"

definition IsExpired :: "'v simpleItem \<Rightarrow> int option \<Rightarrow> int \<Rightarrow> bool" where
  "IsExpired si now clock_now =
     (case item_expiration si of
        None \<Rightarrow> False
      | Some t \<Rightarrow> (case now of None \<Rightarrow> t < clock_now | Some n \<Rightarrow> t < n))"

definition SimpleCache_init :: "('k, 'v) SimpleCache \<Rightarrow> ('k, 'v) SimpleCache" where
  "SimpleCache_init c = c\<lparr>store := []\<rparr>"

definition SimpleCache_remove ::
  "('k, 'v) baseCache \<Rightarrow> 'k \<Rightarrow> ('k, 'v) SimpleCache \<Rightarrow> error option \<times> ('k, 'v) SimpleCache" where
  "SimpleCache_remove cfg k c =
     (case map_of (store c) k of
        Some item \<Rightarrow>
          (None, call_hook (evictedFunc cfg) (Evicted k (item_value item))
                   (c\<lparr>store := AList.delete k (store c)\<rparr>))
      | None \<Rightarrow> (Some KeyNotFoundError, c))"

text \<open>
  The \<open>range\<close> loop of \<open>evict\<close>: it returns the keys whose removal it has deferred, in the
  order in which it met them. The store is not changed while the loop runs.
\<close>

fun evict_scan :: "int \<Rightarrow> int \<Rightarrow> int \<Rightarrow> ('k \<times> 'v simpleItem) list \<Rightarrow> 'k list" where
  "evict_scan count now current [] = []"
| "evict_scan count now current ((k, item) # rest) =
     (if current \<ge> count then []
      else if item_expiration item = None
              \<or> (case item_expiration item of None \<Rightarrow> False | Some t \<Rightarrow> now > t)
      then k # evict_scan count now (current + 1) rest
      else evict_scan count now current rest)"

text \<open>The deferred removals run when \<open>evict\<close> returns, last deferred first.\<close>

definition SimpleCache_evict ::
  "('k, 'v) baseCache \<Rightarrow> int \<Rightarrow> int \<Rightarrow> ('k, 'v) SimpleCache \<Rightarrow> ('k, 'v) SimpleCache" where
  "SimpleCache_evict cfg now count c =
     fold (\<lambda>k c'. snd (SimpleCache_remove cfg k c')) (rev (evict_scan count now 0 (store c))) c"

text \<open>
  \<open>set\<close> returns the stored item and the error. The item is reached through the key it is
  stored under, so the caller that writes to the returned item writes to the store at
  that key.
\<close>

definition SimpleCache_set ::
  "('k, 'v) baseCache \<Rightarrow> int \<Rightarrow> 'k \<Rightarrow> 'v option \<Rightarrow> ('k, 'v) SimpleCache \<Rightarrow>
   ('v simpleItem option \<times> error option) \<times> ('k, 'v) SimpleCache" where
  "SimpleCache_set cfg now k v c =
     (let (val, err) = (case serializeFunc cfg of None \<Rightarrow> (v, None) | Some f \<Rightarrow> f k v) in
      if err \<noteq> None then ((None, err), c)
      else
        let (item1, c1) =
              (case map_of (store c) k of
                 Some item \<Rightarrow> (item\<lparr>item_value := val\<rparr>, c)
               | None \<Rightarrow>
                   (\<lparr>item_value = val, item_expiration = None\<rparr>,
                    if int (length (store c)) \<ge> c_size cfg \<and> c_size cfg > 0
                    then SimpleCache_evict cfg now 1 c else c));
            item2 = (case expiration cfg of
                       None \<Rightarrow> item1
                     | Some d \<Rightarrow> item1\<lparr>item_expiration := Some (now + d)\<rparr>);
            c2 = c1\<lparr>store := AList.update k item2 (store c1)\<rparr>;
            c3 = call_hook (addedFunc cfg) (Added k val) c2
        in ((Some item2, None), c3))"

definition SimpleCache_Set ::
  "('k, 'v) baseCache \<Rightarrow> int \<Rightarrow> 'k \<Rightarrow> 'v option \<Rightarrow> ('k, 'v) SimpleCache \<Rightarrow>
   error option \<times> ('k, 'v) SimpleCache" where
  "SimpleCache_Set cfg now k v c =
     (case SimpleCache_set cfg now k v c of ((_, err), c') \<Rightarrow> (err, c'))"

definition SimpleCache_SetWithExpire ::
  "('k, 'v) baseCache \<Rightarrow> int \<Rightarrow> 'k \<Rightarrow> 'v option \<Rightarrow> int \<Rightarrow> ('k, 'v) SimpleCache \<Rightarrow>
   error option \<times> ('k, 'v) SimpleCache" where
  "SimpleCache_SetWithExpire cfg now k v d c =
     (case SimpleCache_set cfg now k v c of
        ((item, err), c') \<Rightarrow>
          if err \<noteq> None then (err, c')
          else (case item of
                  None \<Rightarrow> (None, c')
                | Some it \<Rightarrow>
                    (None, c'\<lparr>store :=
                       AList.update k (it\<lparr>item_expiration := Some (now + d)\<rparr>) (store c')\<rparr>)))"

definition SimpleCache_get ::
  "('k, 'v) baseCache \<Rightarrow> int \<Rightarrow> 'k \<Rightarrow> bool \<Rightarrow> ('k, 'v) SimpleCache \<Rightarrow>
   'v result \<times> ('k, 'v) SimpleCache" where
  "SimpleCache_get cfg now k onLoad c =
     (case map_of (store c) k of
        None \<Rightarrow> ((None, Some KeyNotFoundError), if \<not> onLoad then IncrMissCount c else c)
      | Some item \<Rightarrow>
          if IsExpired item None now
          then ((None, Some KeyNotFoundError), snd (SimpleCache_remove cfg k c))
          else
            let c' = (if \<not> onLoad then IncrHitCount c else c) in
            (case deserializeFunc cfg of
               Some f \<Rightarrow> (f k (item_value item), c')
             | None \<Rightarrow> ((item_value item, None), c')))"

definition SimpleCache_getWithLoader ::
  "('k, 'v) baseCache \<Rightarrow> int \<Rightarrow> 'k \<Rightarrow> bool \<Rightarrow> ('k, 'v) SimpleCache \<Rightarrow>
   'v result \<times> ('k, 'v) SimpleCache" where
  "SimpleCache_getWithLoader cfg now k isWait c =
     (case loaderExpireFunc cfg of
        None \<Rightarrow> ((None, Some KeyNotFoundError), c)
      | Some fetchFn \<Rightarrow>
          (case load fetchFn k
                  (\<lambda>v expir e c0.
                     if e \<noteq> None then ((None, e), c0)
                     else (case SimpleCache_Set cfg now k v c0 of
                             (err, c1) \<Rightarrow>
                               if err \<noteq> None then ((None, err), c1) else ((v, None), c1)))
                  isWait c of
             ((val, _, err), c') \<Rightarrow>
               if err \<noteq> None then ((None, err), c') else ((val, None), c')))"

definition SimpleCache_Get ::
  "('k, 'v) baseCache \<Rightarrow> int \<Rightarrow> 'k \<Rightarrow> ('k, 'v) SimpleCache \<Rightarrow> 'v result \<times> ('k, 'v) SimpleCache" where
  "SimpleCache_Get cfg now k c =
     (case SimpleCache_get cfg now k False c of
        ((v, err), c') \<Rightarrow>
          if err = Some KeyNotFoundError then SimpleCache_getWithLoader cfg now k True c'
          else ((v, err), c'))"

definition SimpleCache_GetIFPresent ::
  "('k, 'v) baseCache \<Rightarrow> int \<Rightarrow> 'k \<Rightarrow> ('k, 'v) SimpleCache \<Rightarrow> 'v result \<times> ('k, 'v) SimpleCache" where
  "SimpleCache_GetIFPresent cfg now k c =
     (case SimpleCache_get cfg now k False c of
        ((v, err), c') \<Rightarrow>
          if err = Some KeyNotFoundError then SimpleCache_getWithLoader cfg now k False c'
          else ((v, None), c'))"

definition SimpleCache_Remove ::
  "('k, 'v) baseCache \<Rightarrow> 'k \<Rightarrow> ('k, 'v) SimpleCache \<Rightarrow> error option \<times> ('k, 'v) SimpleCache" where
  "SimpleCache_Remove cfg k c = SimpleCache_remove cfg k c"

definition SimpleCache_Len :: "('k, 'v) SimpleCache \<Rightarrow> int" where
  "SimpleCache_Len c = int (length (store c))"

definition SimpleCache_Purge ::
  "('k, 'v) baseCache \<Rightarrow> ('k, 'v) SimpleCache \<Rightarrow> ('k, 'v) SimpleCache" where
  "SimpleCache_Purge cfg c =
     SimpleCache_init
       (fold (\<lambda>(k, item) c'. call_hook (purgeVisitorFunc cfg) (PurgeVisited k (item_value item)) c')
             (store c) c)"

section \<open>The recency-ordered variant (LRUCache)\<close>

text \<open>
  \<open>container/list\<close> is Go's standard doubly linked list. An element (\<open>*list.Element\<close>) is
  an address, the list is the sequence of its elements from the front to the back, and
  the item an element carries (\<open>e.Value.(*lruItem)\<close>) is read from the memory \<open>elems\<close> at
  that address. \<open>MoveToFront\<close> and \<open>Remove\<close> leave the list alone when the element is not
  in it; \<open>Back\<close> is \<open>nil\<close> on the empty list.
\<close>

definition PushFront :: "nat \<Rightarrow> nat list \<Rightarrow> nat list" where
  "PushFront e l = e # l"

definition MoveToFront :: "nat \<Rightarrow> nat list \<Rightarrow> nat list" where
  "MoveToFront e l = (if e \<in> set l then e # remove1 e l else l)"

definition list_Remove :: "nat \<Rightarrow> nat list \<Rightarrow> nat list" where
  "list_Remove e l = remove1 e l"

definition Back :: "nat list \<Rightarrow> nat option" where
  "Back l = (if l = [] then None else Some (last l))"

record ('k, 'v) lruItem =
  lru_key :: 'k
  lru_value :: "'v option"
  lru_expiration :: "int option"

text \<open>
  \<open>lru_store\<close> is the Go map \<open>store\<close> from keys to elements, \<open>evictList\<close> the recency list,
  \<open>nextElem\<close> the next address that an allocation returns.
\<close>

record ('k, 'v) LRUCache = "('k, 'v) cacheState" +
  lru_store :: "('k \<times> nat) list"
  evictList :: "nat list"
  elems :: "nat \<Rightarrow> ('k, 'v) lruItem"
  nextElem :: nat

definition isExpired :: "('k, 'v) lruItem \<Rightarrow> int option \<Rightarrow> int \<Rightarrow> bool" where
  "isExpired it now clock_now =
     (case lru_expiration it of
        None \<Rightarrow> False
      | Some t \<Rightarrow> (case now of None \<Rightarrow> t < clock_now | Some n \<Rightarrow> t < n))"

definition LRUCache_init :: "('k, 'v) LRUCache \<Rightarrow> ('k, 'v) LRUCache" where
  "LRUCache_init c = c\<lparr>lru_store := [], evictList := []\<rparr>"

definition LRUCache_removeElement ::
  "('k, 'v) baseCache \<Rightarrow> nat \<Rightarrow> ('k, 'v) LRUCache \<Rightarrow> ('k, 'v) LRUCache" where
  "LRUCache_removeElement cfg e c =
     (let entry = elems c e in
      call_hook (evictedFunc cfg) (Evicted (lru_key entry) (lru_value entry))
        (c\<lparr>lru_store := AList.delete (lru_key entry) (lru_store c),
           evictList := list_Remove e (evictList c)\<rparr>))"

fun evict_loop :: "('k, 'v) baseCache \<Rightarrow> nat \<Rightarrow> ('k, 'v) LRUCache \<Rightarrow> ('k, 'v) LRUCache" where
  "evict_loop cfg 0 c = c"
| "evict_loop cfg (Suc n) c =
     (case Back (evictList c) of
        None \<Rightarrow> c
      | Some ent \<Rightarrow> evict_loop cfg n (LRUCache_removeElement cfg ent c))"

definition LRUCache_evict ::
  "('k, 'v) baseCache \<Rightarrow> int \<Rightarrow> ('k, 'v) LRUCache \<Rightarrow> ('k, 'v) LRUCache" where
  "LRUCache_evict cfg count c = evict_loop cfg (nat count) c"

text \<open>\<open>set\<close> returns the element that carries the stored item, and the error.\<close>

definition LRUCache_set ::
  "('k, 'v) baseCache \<Rightarrow> int \<Rightarrow> 'k \<Rightarrow> 'v option \<Rightarrow> ('k, 'v) LRUCache \<Rightarrow>
   (nat option \<times> error option) \<times> ('k, 'v) LRUCache" where
  "LRUCache_set cfg now k v c =
     (let (val, err) = (case serializeFunc cfg of None \<Rightarrow> (v, None) | Some f \<Rightarrow> f k v) in
      if err \<noteq> None then ((None, err), c)
      else
        let (e, c1) =
              (case map_of (lru_store c) k of
                 Some it \<Rightarrow>
                   (it, c\<lparr>evictList := MoveToFront it (evictList c),
                          elems := (elems c)(it := (elems c it)\<lparr>lru_value := val\<rparr>)\<rparr>)
               | None \<Rightarrow>
                   (let c0 = (if int (length (evictList c)) \<ge> capacity cfg
                              then LRUCache_evict cfg 1 c else c);
                        e0 = nextElem c0
                    in (e0, c0\<lparr>lru_store := AList.update k e0 (lru_store c0),
                               evictList := PushFront e0 (evictList c0),
                               elems := (elems c0)
                                 (e0 := \<lparr>lru_key = k, lru_value = val, lru_expiration = None\<rparr>),
                               nextElem := Suc e0\<rparr>)));
            c2 = (case expiration cfg of
                    None \<Rightarrow> c1
                  | Some d \<Rightarrow>
                      c1\<lparr>elems := (elems c1)(e := (elems c1 e)\<lparr>lru_expiration := Some (now + d)\<rparr>)\<rparr>);
            c3 = call_hook (addedFunc cfg) (Added k val) c2
        in ((Some e, None), c3))"

definition LRUCache_Set ::
  "('k, 'v) baseCache \<Rightarrow> int \<Rightarrow> 'k \<Rightarrow> 'v option \<Rightarrow> ('k, 'v) LRUCache \<Rightarrow>
   error option \<times> ('k, 'v) LRUCache" where
  "LRUCache_Set cfg now k v c =
     (case LRUCache_set cfg now k v c of ((_, err), c') \<Rightarrow> (err, c'))"

definition LRUCache_SetWithExpire ::
  "('k, 'v) baseCache \<Rightarrow> int \<Rightarrow> 'k \<Rightarrow> 'v option \<Rightarrow> int \<Rightarrow> ('k, 'v) LRUCache \<Rightarrow>
   error option \<times> ('k, 'v) LRUCache" where
  "LRUCache_SetWithExpire cfg now k v d c =
     (case LRUCache_set cfg now k v c of
        ((item, err), c') \<Rightarrow>
          if err \<noteq> None then (err, c')
          else (case item of
                  None \<Rightarrow> (None, c')
                | Some e \<Rightarrow>
                    (None, c'\<lparr>elems :=
                       (elems c')(e := (elems c' e)\<lparr>lru_expiration := Some (now + d)\<rparr>)\<rparr>)))"

definition LRUCache_get ::
  "('k, 'v) baseCache \<Rightarrow> int \<Rightarrow> 'k \<Rightarrow> bool \<Rightarrow> ('k, 'v) LRUCache \<Rightarrow>
   'v result \<times> ('k, 'v) LRUCache" where
  "LRUCache_get cfg now k onLoad c =
     (case map_of (lru_store c) k of
        None \<Rightarrow> ((None, Some KeyNotFoundError), if \<not> onLoad then IncrMissCount c else c)
      | Some entry \<Rightarrow>
          (let item = elems c entry in
           if isExpired item None now
           then (let c1 = LRUCache_removeElement cfg entry c in
                 ((None, Some KeyNotFoundError), if \<not> onLoad then IncrMissCount c1 else c1))
           else
             (let c1 = c\<lparr>evictList := MoveToFront entry (evictList c)\<rparr>;
                  c2 = (if \<not> onLoad then IncrHitCount c1 else c1)
              in (case deserializeFunc cfg of
                    Some f \<Rightarrow> (f k (lru_value item), c2)
                  | None \<Rightarrow> ((lru_value item, None), c2)))))"

definition LRUCache_getWithLoader ::
  "('k, 'v) baseCache \<Rightarrow> int \<Rightarrow> 'k \<Rightarrow> bool \<Rightarrow> ('k, 'v) LRUCache \<Rightarrow>
   'v result \<times> ('k, 'v) LRUCache" where
  "LRUCache_getWithLoader cfg now k isWait c =
     (case loaderExpireFunc cfg of
        None \<Rightarrow> ((None, Some KeyNotFoundError), c)
      | Some fetchFn \<Rightarrow>
          (case load fetchFn k
                  (\<lambda>v expir e c0.
                     if e \<noteq> None then ((None, e), c0)
                     else (case LRUCache_Set cfg now k v c0 of
                             (err, c1) \<Rightarrow>
                               if err \<noteq> None then ((None, err), c1) else ((v, None), c1)))
                  isWait c of
             ((val, _, err), c') \<Rightarrow>
               if err \<noteq> None then ((None, err), c') else ((val, None), c')))"

definition LRUCache_Get ::
  "('k, 'v) baseCache \<Rightarrow> int \<Rightarrow> 'k \<Rightarrow> ('k, 'v) LRUCache \<Rightarrow> 'v result \<times> ('k, 'v) LRUCache" where
  "LRUCache_Get cfg now k c =
     (case LRUCache_get cfg now k False c of
        ((v, err), c') \<Rightarrow>
          if err = Some KeyNotFoundError then LRUCache_getWithLoader cfg now k True c'
          else ((v, err), c'))"

definition LRUCache_GetIFPresent ::
  "('k, 'v) baseCache \<Rightarrow> int \<Rightarrow> 'k \<Rightarrow> ('k, 'v) LRUCache \<Rightarrow> 'v result \<times> ('k, 'v) LRUCache" where
  "LRUCache_GetIFPresent cfg now k c =
     (case LRUCache_get cfg now k False c of
        ((v, err), c') \<Rightarrow>
          if err = Some KeyNotFoundError then LRUCache_getWithLoader cfg now k False c'
          else ((v, err), c'))"

definition LRUCache_remove ::
  "('k, 'v) baseCache \<Rightarrow> 'k \<Rightarrow> ('k, 'v) LRUCache \<Rightarrow> error option \<times> ('k, 'v) LRUCache" where
  "LRUCache_remove cfg k c =
     (case map_of (lru_store c) k of
        Some ent \<Rightarrow> (None, LRUCache_removeElement cfg ent c)
      | None \<Rightarrow> (Some KeyNotFoundError, c))"

definition LRUCache_Remove ::
  "('k, 'v) baseCache \<Rightarrow> 'k \<Rightarrow> ('k, 'v) LRUCache \<Rightarrow> error option \<times> ('k, 'v) LRUCache" where
  "LRUCache_Remove cfg k c = LRUCache_remove cfg k c"

definition LRUCache_Purge ::
  "('k, 'v) baseCache \<Rightarrow> ('k, 'v) LRUCache \<Rightarrow> ('k, 'v) LRUCache" where
  "LRUCache_Purge cfg c =
     LRUCache_init
       (fold (\<lambda>(k, e) c'. call_hook (purgeVisitorFunc cfg)
                             (PurgeVisited k (lru_value (elems c e))) c')
             (lru_store c) c)"

definition LRUCache_Len :: "('k, 'v) LRUCache \<Rightarrow> int" where
  "LRUCache_Len c = int (length (lru_store c))"

section \<open>Concrete configurations and states\<close>

definition cfg0 :: "(nat, nat) baseCache" where
  "cfg0 = \<lparr>c_size = 0, capacity = 0, expiration = None, serializeFunc = None,
            deserializeFunc = None, loaderExpireFunc = None, addedFunc = False,
            evictedFunc = False, purgeVisitorFunc = False\<rparr>"

definition simple0 :: "(nat, nat) SimpleCache" where
  "simple0 = \<lparr>hitCount = 0, missCount = 0, events = [], store = []\<rparr>"

definition lru0 :: "(nat, nat) LRUCache" where
  "lru0 = \<lparr>hitCount = 0, missCount = 0, events = [], lru_store = [], evictList = [],
            elems = (\<lambda>_. \<lparr>lru_key = 0, lru_value = None, lru_expiration = None\<rparr>),
            nextElem = 0\<rparr>"

section \<open>The eviction rule of the unordered variant\<close>

text \<open>The condition under which the loop of \<open>evict\<close> defers the removal of an entry.\<close>

definition evict_candidate :: "int \<Rightarrow> 'k \<times> 'v simpleItem \<Rightarrow> bool" where
  "evict_candidate now p =
     (item_expiration (snd p) = None
      \<or> (case item_expiration (snd p) of None \<Rightarrow> False | Some t \<Rightarrow> now > t))"

text \<open>
  The rule in the words of the specification, for comparison with the code: remove the
  first \<open>n\<close> entries, in iteration order, whose expiration has already passed; if fewer
  than \<open>n\<close> expired entries exist, remove further entries in iteration order until \<open>n\<close>
  are removed or the mapping is exhausted.
\<close>

definition expired_at :: "int \<Rightarrow> 'k \<times> 'v simpleItem \<Rightarrow> bool" where
  "expired_at now p = (case item_expiration (snd p) of None \<Rightarrow> False | Some t \<Rightarrow> t < now)"

definition spec_Evict ::
  "int \<Rightarrow> int \<Rightarrow> ('k \<times> 'v simpleItem) list \<Rightarrow> ('k \<times> 'v simpleItem) list" where
  "spec_Evict now n st =
     (let expired = take (nat n) (map fst (filter (expired_at now) st));
          st1 = filter (\<lambda>p. fst p \<notin> set expired) st;
          others = take (nat n - length expired) (map fst st1)
      in filter (\<lambda>p. fst p \<notin> set others) st1)"

section \<open>Sequences of operations on the recency-ordered variant\<close>

datatype ('k, 'v) lru_op =
    OpSet int 'k "'v option"
  | OpSetWithExpire int 'k "'v option" int
  | OpGet int 'k
  | OpGetIFPresent int 'k
  | OpRemove 'k
  | OpEvict int
  | OpPurge

fun lru_step :: "('k, 'v) baseCache \<Rightarrow> ('k, 'v) lru_op \<Rightarrow> ('k, 'v) LRUCache \<Rightarrow> ('k, 'v) LRUCache" where
  "lru_step cfg (OpSet now k v) c = snd (LRUCache_Set cfg now k v c)"
| "lru_step cfg (OpSetWithExpire now k v d) c = snd (LRUCache_SetWithExpire cfg now k v d c)"
| "lru_step cfg (OpGet now k) c = snd (LRUCache_Get cfg now k c)"
| "lru_step cfg (OpGetIFPresent now k) c = snd (LRUCache_GetIFPresent cfg now k c)"
| "lru_step cfg (OpRemove k) c = snd (LRUCache_Remove cfg k c)"
| "lru_step cfg (OpEvict n) c = LRUCache_evict cfg n c"
| "lru_step cfg OpPurge c = LRUCache_Purge cfg c"

text \<open>The cache after the operations \<open>ops\<close>, run in order on a new cache.\<close>

definition lru_run ::
  "('k, 'v) baseCache \<Rightarrow> ('k, 'v) lru_op list \<Rightarrow> ('k, 'v) LRUCache \<Rightarrow> ('k, 'v) LRUCache" where
  "lru_run cfg ops c0 = fold (lru_step cfg) ops (LRUCache_init c0)"

text \<open>
  The two structures of the recency variant agree: every element the mapping holds is in
  the list, the key of every element of the list is mapped to that element, and the
  mapping has as many keys as the list has elements.
\<close>

definition hash_list_bijection :: "('k, 'v) LRUCache \<Rightarrow> bool" where
  "hash_list_bijection c \<longleftrightarrow>
     distinct (map fst (lru_store c)) \<and> distinct (evictList c) \<and>
     (\<forall>(k, e) \<in> set (lru_store c). e \<in> set (evictList c) \<and> lru_key (elems c e) = k) \<and>
     (\<forall>e \<in> set (evictList c). map_of (lru_store c) (lru_key (elems c e)) = Some e) \<and>
     LRUCache_Len c = int (length (evictList c))"

text \<open>The representation invariant from which the agreement follows.\<close>

definition lru_inv :: "('k, 'v) LRUCache \<Rightarrow> bool" where
  "lru_inv c \<longleftrightarrow>
     distinct (map fst (lru_store c)) \<and> distinct (evictList c) \<and>
     snd ` set (lru_store c) = set (evictList c) \<and>
     (\<forall>(k, e) \<in> set (lru_store c). lru_key (elems c e) = k) \<and>
     (\<forall>e \<in> set (evictList c). e < nextElem c)"

text \<open>
  The key an operation touches: the key of a \<open>Set\<close> or \<open>SetWithExpire\<close> whose serialize
  hook does not fail, and the key of a \<open>Get\<close> or \<open>GetIFPresent\<close>. \<open>touches\<close> lists the
  touched keys of a sequence of operations, the most recent first, and \<open>age h k\<close> counts
  the touches since the last touch of \<open>k\<close>. A \<open>Get\<close> that misses names a key that is
  not in the mapping afterwards; ages are compared between keys of the mapping only, and
  the last operation on a key of the mapping is always one that found or stored it.
\<close>

definition serialize_fails :: "('k, 'v) baseCache \<Rightarrow> 'k \<Rightarrow> 'v option \<Rightarrow> bool" where
  "serialize_fails cfg k v =
     (case serializeFunc cfg of None \<Rightarrow> False | Some f \<Rightarrow> snd (f k v) \<noteq> None)"

fun touched_key :: "('k, 'v) baseCache \<Rightarrow> ('k, 'v) lru_op \<Rightarrow> 'k option" where
  "touched_key cfg (OpSet now k v) = (if serialize_fails cfg k v then None else Some k)"
| "touched_key cfg (OpSetWithExpire now k v d) = (if serialize_fails cfg k v then None else Some k)"
| "touched_key cfg (OpGet now k) = Some k"
| "touched_key cfg (OpGetIFPresent now k) = Some k"
| "touched_key cfg (OpRemove k) = None"
| "touched_key cfg (OpEvict n) = None"
| "touched_key cfg OpPurge = None"

fun touches :: "('k, 'v) baseCache \<Rightarrow> ('k, 'v) lru_op list \<Rightarrow> 'k list \<Rightarrow> 'k list" where
  "touches cfg [] h = h"
| "touches cfg (op # ops) h =
     touches cfg ops (case touched_key cfg op of None \<Rightarrow> h | Some k \<Rightarrow> k # h)"

fun age :: "'k list \<Rightarrow> 'k \<Rightarrow> nat" where
  "age [] k = 0"
| "age (x # h) k = (if x = k then 0 else Suc (age h k))"

text \<open>The keys that are in the mapping of \<open>c\<close> and no longer in the mapping of \<open>c'\<close>.\<close>

definition evicted_keys :: "('k, 'v) LRUCache \<Rightarrow> ('k, 'v) LRUCache \<Rightarrow> 'k list" where
  "evicted_keys c c' = filter (\<lambda>k. map_of (lru_store c') k = None) (map fst (lru_store c))"

definition age_sorted :: "'k list \<Rightarrow> ('k, 'v) LRUCache \<Rightarrow> bool" where
  "age_sorted h c \<longleftrightarrow>
     sorted_wrt (\<lambda>a b. age h (lru_key (elems c a)) < age h (lru_key (elems c b))) (evictList c)"


section \<open>Writes and reads of one key\<close>

lemmas simple_defs =
  SimpleCache_Set_def SimpleCache_set_def SimpleCache_evict_def SimpleCache_remove_def
  SimpleCache_Len_def SimpleCache_SetWithExpire_def SimpleCache_Get_def SimpleCache_get_def
  SimpleCache_GetIFPresent_def SimpleCache_getWithLoader_def IsExpired_def
  IncrMissCount_def IncrHitCount_def call_hook_def Let_def

lemmas lru_defs =
  LRUCache_Set_def LRUCache_set_def LRUCache_evict_def LRUCache_removeElement_def
  LRUCache_Len_def LRUCache_SetWithExpire_def LRUCache_Get_def LRUCache_get_def
  LRUCache_GetIFPresent_def LRUCache_getWithLoader_def isExpired_def
  PushFront_def MoveToFront_def list_Remove_def Back_def
  IncrMissCount_def IncrHitCount_def call_hook_def Let_def

lemma simple_set_lookup:
  assumes "serializeFunc cfg = None"
  shows "\<exists>it c'. SimpleCache_set cfg now k v c = ((Some it, None), c')
      \<and> map_of (store c') k = Some it \<and> item_value it = v
      \<and> item_expiration it =
          (case expiration cfg of
             Some d \<Rightarrow> Some (now + d)
           | None \<Rightarrow> (case map_of (store c) k of None \<Rightarrow> None | Some old \<Rightarrow> item_expiration old))"
  using assms
  by (auto simp: SimpleCache_set_def Let_def call_hook_def update_conv' split: option.splits)

lemma simple_Set_lookup:
  assumes "serializeFunc cfg = None"
  shows "\<exists>it c'. SimpleCache_Set cfg now k v c = (None, c')
      \<and> map_of (store c') k = Some it \<and> item_value it = v
      \<and> item_expiration it =
          (case expiration cfg of
             Some d \<Rightarrow> Some (now + d)
           | None \<Rightarrow> (case map_of (store c) k of None \<Rightarrow> None | Some old \<Rightarrow> item_expiration old))"
  using simple_set_lookup[OF assms, of now k v c]
  by (auto simp: SimpleCache_Set_def)

lemma simple_SetWithExpire_lookup:
  assumes "serializeFunc cfg = None"
  shows "\<exists>c'. SimpleCache_SetWithExpire cfg now k v d c = (None, c') \<and>
      map_of (store c') k = Some \<lparr>item_value = v, item_expiration = Some (now + d)\<rparr>"
  using simple_set_lookup[OF assms, of now k v c]
  by (auto simp: SimpleCache_SetWithExpire_def update_conv')

lemma simple_Get_hit:
  assumes "map_of (store c) k = Some it" and "deserializeFunc cfg = None"
    and "case item_expiration it of None \<Rightarrow> True | Some t \<Rightarrow> now \<le> t"
  shows "fst (SimpleCache_Get cfg now k c) = (item_value it, None)"
  using assms
  by (auto simp: SimpleCache_Get_def SimpleCache_get_def IsExpired_def Let_def
           split: option.splits)

lemma simple_Get_expired:
  assumes "map_of (store c) k = Some it" and "loaderExpireFunc cfg = None"
    and "item_expiration it = Some t" and "t < now"
  shows "fst (SimpleCache_Get cfg now k c) = (None, Some KeyNotFoundError)"
  using assms
  by (auto simp: SimpleCache_Get_def SimpleCache_get_def IsExpired_def Let_def
                 SimpleCache_getWithLoader_def split: option.splits)

lemma lru_set_lookup:
  assumes "serializeFunc cfg = None"
  shows "\<exists>e c'. LRUCache_set cfg now k v c = ((Some e, None), c')
      \<and> map_of (lru_store c') k = Some e \<and> lru_value (elems c' e) = v
      \<and> lru_expiration (elems c' e) =
          (case expiration cfg of
             Some d \<Rightarrow> Some (now + d)
           | None \<Rightarrow> (case map_of (lru_store c) k of
                        None \<Rightarrow> None
                      | Some old \<Rightarrow> lru_expiration (elems c old)))"
  using assms
  by (auto simp: LRUCache_set_def Let_def call_hook_def update_conv' split: option.splits)

lemma lru_Set_lookup:
  assumes "serializeFunc cfg = None"
  shows "\<exists>e c'. LRUCache_Set cfg now k v c = (None, c')
      \<and> map_of (lru_store c') k = Some e \<and> lru_value (elems c' e) = v
      \<and> lru_expiration (elems c' e) =
          (case expiration cfg of
             Some d \<Rightarrow> Some (now + d)
           | None \<Rightarrow> (case map_of (lru_store c) k of
                        None \<Rightarrow> None
                      | Some old \<Rightarrow> lru_expiration (elems c old)))"
  using lru_set_lookup[OF assms, of now k v c]
  by (auto simp: LRUCache_Set_def)

lemma lru_SetWithExpire_lookup:
  assumes "serializeFunc cfg = None"
  shows "\<exists>e c'. LRUCache_SetWithExpire cfg now k v d c = (None, c') \<and>
      map_of (lru_store c') k = Some e \<and> lru_value (elems c' e) = v \<and>
      lru_expiration (elems c' e) = Some (now + d)"
  using lru_set_lookup[OF assms, of now k v c]
  by (auto simp: LRUCache_SetWithExpire_def)

lemma lru_Get_hit:
  assumes "map_of (lru_store c) k = Some e" and "deserializeFunc cfg = None"
    and "case lru_expiration (elems c e) of None \<Rightarrow> True | Some t \<Rightarrow> now \<le> t"
  shows "fst (LRUCache_Get cfg now k c) = (lru_value (elems c e), None)"
  using assms
  by (auto simp: LRUCache_Get_def LRUCache_get_def isExpired_def Let_def split: option.splits)

lemma lru_Get_expired:
  assumes "map_of (lru_store c) k = Some e" and "loaderExpireFunc cfg = None"
    and "lru_expiration (elems c e) = Some t" and "t < now"
  shows "fst (LRUCache_Get cfg now k c) = (None, Some KeyNotFoundError)"
  using assms
  by (auto simp: LRUCache_Get_def LRUCache_get_def isExpired_def Let_def
                 LRUCache_getWithLoader_def split: option.splits)

section \<open>Expiration boundary\<close>

text \<open>
  Claim C3, as the code has it. A key written with the absolute expiration instant
  \<open>t = now + d\<close>, by \<open>SetWithExpire\<close> or by \<open>Set\<close> under the default time-to-live \<open>d\<close>,
  is returned by every \<open>Get\<close> whose clock time is at most \<open>t\<close>, the instant \<open>t\<close> itself
  included, and is reported not-found by every \<open>Get\<close> whose clock time is strictly after
  \<open>t\<close>, in both variants (no serialize or deserialize hook, no loader).
\<close>

theorem expiration_boundary_strict:
  assumes "serializeFunc cfg = None" and "deserializeFunc cfg = None"
    and "loaderExpireFunc cfg = None"
  shows "fst (SimpleCache_Get cfg now' k (snd (SimpleCache_SetWithExpire cfg now k v d c)))
           = (if now' \<le> now + d then (v, None) else (None, Some KeyNotFoundError))
       \<and> fst (LRUCache_Get cfg now' k (snd (LRUCache_SetWithExpire cfg now k v d l)))
           = (if now' \<le> now + d then (v, None) else (None, Some KeyNotFoundError))
       \<and> (expiration cfg = Some d \<longrightarrow>
            fst (SimpleCache_Get cfg now' k (snd (SimpleCache_Set cfg now k v c)))
              = (if now' \<le> now + d then (v, None) else (None, Some KeyNotFoundError))
          \<and> fst (LRUCache_Get cfg now' k (snd (LRUCache_Set cfg now k v l)))
              = (if now' \<le> now + d then (v, None) else (None, Some KeyNotFoundError)))"
proof -
  have s1: "fst (SimpleCache_Get cfg now' k (snd (SimpleCache_SetWithExpire cfg now k v d c)))
           = (if now' \<le> now + d then (v, None) else (None, Some KeyNotFoundError))"
  proof -
    obtain c' where c': "SimpleCache_SetWithExpire cfg now k v d c = (None, c')"
      "map_of (store c') k = Some \<lparr>item_value = v, item_expiration = Some (now + d)\<rparr>"
      using simple_SetWithExpire_lookup[OF assms(1)] by blast
    show ?thesis
      using simple_Get_hit[OF c'(2) assms(2), of now'] simple_Get_expired[OF c'(2) assms(3), of "now + d" now']
      by (auto simp: c'(1))
  qed
  have l1: "fst (LRUCache_Get cfg now' k (snd (LRUCache_SetWithExpire cfg now k v d l)))
           = (if now' \<le> now + d then (v, None) else (None, Some KeyNotFoundError))"
  proof -
    obtain e l' where l': "LRUCache_SetWithExpire cfg now k v d l = (None, l')"
      "map_of (lru_store l') k = Some e" "lru_value (elems l' e) = v"
      "lru_expiration (elems l' e) = Some (now + d)"
      using lru_SetWithExpire_lookup[OF assms(1)] by blast
    show ?thesis
      using lru_Get_hit[OF l'(2) assms(2), of now'] lru_Get_expired[OF l'(2) assms(3) l'(4), of now']
      by (auto simp: l'(1,3,4))
  qed
  have s2: "fst (SimpleCache_Get cfg now' k (snd (SimpleCache_Set cfg now k v c)))
              = (if now' \<le> now + d then (v, None) else (None, Some KeyNotFoundError))"
    if ex: "expiration cfg = Some d"
  proof -
    obtain it c' where c': "SimpleCache_Set cfg now k v c = (None, c')"
      "map_of (store c') k = Some it" "item_value it = v" "item_expiration it = Some (now + d)"
      using simple_Set_lookup[OF assms(1), of now k v c] ex by auto
    show ?thesis
      using simple_Get_hit[OF c'(2) assms(2), of now'] simple_Get_expired[OF c'(2) assms(3) c'(4), of now']
      by (auto simp: c'(1,3,4))
  qed
  have l2: "fst (LRUCache_Get cfg now' k (snd (LRUCache_Set cfg now k v l)))
              = (if now' \<le> now + d then (v, None) else (None, Some KeyNotFoundError))"
    if ex: "expiration cfg = Some d"
  proof -
    obtain e l' where l': "LRUCache_Set cfg now k v l = (None, l')"
      "map_of (lru_store l') k = Some e" "lru_value (elems l' e) = v"
      "lru_expiration (elems l' e) = Some (now + d)"
      using lru_Set_lookup[OF assms(1), of now k v l] ex by auto
    show ?thesis
      using lru_Get_hit[OF l'(2) assms(2), of now'] lru_Get_expired[OF l'(2) assms(3) l'(4), of now']
      by (auto simp: l'(1,3,4))
  qed
  show ?thesis using s1 l1 s2 l2 by blast
qed

theorem expiration_boundary_strict_witness:
  "fst (SimpleCache_Get (cfg0\<lparr>expiration := Some 5\<rparr>) 5 1
          (snd (SimpleCache_Set (cfg0\<lparr>expiration := Some 5\<rparr>) 0 1 (Some 7) simple0))) = (Some 7, None)
   \<and> fst (LRUCache_Get (cfg0\<lparr>expiration := Some 5\<rparr>) 6 1
          (snd (LRUCache_SetWithExpire (cfg0\<lparr>expiration := Some 5\<rparr>) 0 1 (Some 7) 5 lru0)))
       = (None, Some KeyNotFoundError)"
  using expiration_boundary_strict[of "cfg0\<lparr>expiration := Some 5\<rparr>" 5 1 0 "Some 7" 5 simple0 lru0]
        expiration_boundary_strict[of "cfg0\<lparr>expiration := Some 5\<rparr>" 6 1 0 "Some 7" 5 simple0 lru0]
  by (simp add: cfg0_def)

text \<open>
  Claim C3 as stated says that a \<open>Get\<close> at clock time \<open>t\<close> reports not-found. With
  \<open>t = 5\<close>, a \<open>Get\<close> at clock time \<open>5\<close> returns the value in both variants.
\<close>

theorem expiration_at_instant_counterexample:
  "fst (SimpleCache_Get cfg0 5 1 (snd (SimpleCache_SetWithExpire cfg0 0 1 (Some 7) 5 simple0)))
     = (Some 7, None)
   \<and> fst (LRUCache_Get cfg0 5 1 (snd (LRUCache_SetWithExpire cfg0 0 1 (Some 7) 5 lru0)))
     = (Some 7, None)"
  by (simp add: simple_defs lru_defs cfg0_def simple0_def lru0_def)

section \<open>Failure of the serialize hook\<close>

text \<open>
  Claim C6. When the serialize hook returns an error, \<open>Set\<close> and \<open>SetWithExpire\<close> of both
  variants return that error and the cache is the one they were given: the store, the
  recency list, the counters and the trace of hook calls are unchanged, so nothing is
  inserted, updated or evicted and the added-hook is not called.
\<close>

theorem serialize_failure_leaves_state:
  assumes "serializeFunc cfg = Some f" and "f k v = (w, Some e)"
  shows "SimpleCache_Set cfg now k v c = (Some e, c)
       \<and> SimpleCache_SetWithExpire cfg now k v d c = (Some e, c)
       \<and> LRUCache_Set cfg now k v l = (Some e, l)
       \<and> LRUCache_SetWithExpire cfg now k v d l = (Some e, l)"
  using assms
  by (simp add: SimpleCache_Set_def SimpleCache_SetWithExpire_def SimpleCache_set_def
                LRUCache_Set_def LRUCache_SetWithExpire_def LRUCache_set_def)

theorem serialize_failure_leaves_state_witness:
  "SimpleCache_Set (cfg0\<lparr>serializeFunc := Some (\<lambda>k v. (None, Some (OtherError 1)))\<rparr>) 0 1 (Some 7) simple0
     = (Some (OtherError 1), simple0)
   \<and> LRUCache_SetWithExpire (cfg0\<lparr>serializeFunc := Some (\<lambda>k v. (None, Some (OtherError 1)))\<rparr>) 0 1 (Some 7) 5 lru0
     = (Some (OtherError 1), lru0)"
  using serialize_failure_leaves_state[of "cfg0\<lparr>serializeFunc := Some (\<lambda>k v. (None, Some (OtherError 1)))\<rparr>"
          "\<lambda>k v. (None, Some (OtherError 1))" 1 "Some 7" None "OtherError 1" 0 simple0 5 lru0]
  by (simp add: cfg0_def)

section \<open>Round trip\<close>

text \<open>
  Claim C9. Without serialize and deserialize hooks and with no expiration in effect (no
  default time-to-live, and no expiration instant on an entry already stored under the
  key), \<open>Set k v\<close> returns no error and a following \<open>Get k\<close> returns \<open>v\<close> with no error,
  in both variants. Capacity pressure does not matter: the key is written after the
  eviction.
\<close>

theorem round_trip:
  assumes "serializeFunc cfg = None" and "deserializeFunc cfg = None"
    and "expiration cfg = None"
    and "\<forall>it. map_of (store c) k = Some it \<longrightarrow> item_expiration it = None"
    and "\<forall>e. map_of (lru_store l) k = Some e \<longrightarrow> lru_expiration (elems l e) = None"
  shows "fst (SimpleCache_Set cfg now k v c) = None
       \<and> fst (SimpleCache_Get cfg now' k (snd (SimpleCache_Set cfg now k v c))) = (v, None)
       \<and> fst (LRUCache_Set cfg now k v l) = None
       \<and> fst (LRUCache_Get cfg now' k (snd (LRUCache_Set cfg now k v l))) = (v, None)"
proof -
  obtain it c' where c': "SimpleCache_Set cfg now k v c = (None, c')"
      "map_of (store c') k = Some it" "item_value it = v" "item_expiration it = None"
    using simple_Set_lookup[OF assms(1), of now k v c] assms(3,4)
    by (auto split: option.splits)
  obtain e l' where l': "LRUCache_Set cfg now k v l = (None, l')"
      "map_of (lru_store l') k = Some e" "lru_value (elems l' e) = v"
      "lru_expiration (elems l' e) = None"
    using lru_Set_lookup[OF assms(1), of now k v l] assms(3,5)
    by (auto split: option.splits)
  show ?thesis
    using simple_Get_hit[OF c'(2) assms(2), of now'] lru_Get_hit[OF l'(2) assms(2), of now']
    by (simp add: c' l')
qed

theorem round_trip_witness:
  "fst (SimpleCache_Get cfg0 0 1 (snd (SimpleCache_Set cfg0 0 1 (Some 7) simple0))) = (Some 7, None)
   \<and> fst (LRUCache_Get cfg0 0 1 (snd (LRUCache_Set cfg0 0 1 (Some 7) lru0))) = (Some 7, None)"
  using round_trip[of cfg0 simple0 1 lru0 0 "Some 7" 0]
  by (simp add: cfg0_def simple0_def lru0_def)

section \<open>Errors of the deserialize hook in GetIFPresent\<close>

text \<open>
  Claim C10. For a key that is present and not expired, whose deserialize hook returns
  an error other than the not-found error, \<open>SimpleCache.GetIFPresent\<close> returns the hook's
  value with a nil error, and \<open>LRUCache.GetIFPresent\<close> returns the hook's value and the
  hook's error.
\<close>

theorem GetIFPresent_deserialize_error:
  assumes "deserializeFunc cfg = Some f"
    and "map_of (store c) k = Some it" and "\<not> IsExpired it None now"
    and "f k (item_value it) = (w, Some e)" and "e \<noteq> KeyNotFoundError"
    and "map_of (lru_store l) k = Some el" and "\<not> isExpired (elems l el) None now"
    and "f k (lru_value (elems l el)) = (w', Some e')" and "e' \<noteq> KeyNotFoundError"
  shows "fst (SimpleCache_GetIFPresent cfg now k c) = (w, None)
       \<and> fst (LRUCache_GetIFPresent cfg now k l) = (w', Some e')"
  using assms
  by (simp add: SimpleCache_GetIFPresent_def SimpleCache_get_def
                LRUCache_GetIFPresent_def LRUCache_get_def Let_def)

theorem GetIFPresent_deserialize_error_witness:
  "fst (SimpleCache_GetIFPresent (cfg0\<lparr>deserializeFunc := Some (\<lambda>k v. (None, Some (OtherError 2)))\<rparr>) 0 1
          (simple0\<lparr>store := [(1, \<lparr>item_value = Some 7, item_expiration = None\<rparr>)]\<rparr>)) = (None, None)
   \<and> fst (LRUCache_GetIFPresent (cfg0\<lparr>deserializeFunc := Some (\<lambda>k v. (None, Some (OtherError 2)))\<rparr>) 0 1
          (lru0\<lparr>lru_store := [(1, 0)], evictList := [0],
                 elems := (elems lru0)(0 := \<lparr>lru_key = 1, lru_value = Some 7, lru_expiration = None\<rparr>),
                 nextElem := 1\<rparr>)) = (None, Some (OtherError 2))"
  using GetIFPresent_deserialize_error[of "cfg0\<lparr>deserializeFunc := Some (\<lambda>k v. (None, Some (OtherError 2)))\<rparr>"
          "\<lambda>k v. (None, Some (OtherError 2))"
          "simple0\<lparr>store := [(1, \<lparr>item_value = Some 7, item_expiration = None\<rparr>)]\<rparr>" 1
          "\<lparr>item_value = Some 7, item_expiration = None\<rparr>" 0 None "OtherError 2"
          "lru0\<lparr>lru_store := [(1, 0)], evictList := [0],
                 elems := (elems lru0)(0 := \<lparr>lru_key = 1, lru_value = Some 7, lru_expiration = None\<rparr>),
                 nextElem := 1\<rparr>" 0 None "OtherError 2"]
  by (simp add: cfg0_def simple0_def lru0_def IsExpired_def isExpired_def)

section \<open>Capacity of the unordered variant\<close>

text \<open>
  Claim C1 at a failing input. The unordered variant has the limit \<open>1\<close> and the default
  time-to-live \<open>100\<close>; two keys are set at clock time \<open>0\<close>. When the second key arrives
  the only stored entry carries an expiration instant that has not passed, \<open>evict\<close>
  removes nothing, and \<open>Len\<close> is \<open>2\<close>.
\<close>

theorem simple_capacity_exceeded:
  "SimpleCache_Len (snd (SimpleCache_Set (cfg0\<lparr>c_size := 1, expiration := Some 100\<rparr>) 0 2 (Some 20)
     (snd (SimpleCache_Set (cfg0\<lparr>c_size := 1, expiration := Some 100\<rparr>) 0 1 (Some 10) simple0)))) = 2"
  by (simp add: simple_defs cfg0_def simple0_def)

section \<open>Miss counter on expiry\<close>

text \<open>
  Claim C7 at a failing input. A key is written with the expiration instant \<open>5\<close> and read
  at clock time \<open>10\<close>. Both variants report not-found; the recency variant has counted
  one miss, the unordered variant has counted none.
\<close>

theorem simple_expired_get_miss_not_counted:
  "fst (SimpleCache_Get cfg0 10 1 (snd (SimpleCache_SetWithExpire cfg0 0 1 (Some 7) 5 simple0)))
     = (None, Some KeyNotFoundError)
   \<and> missCount (snd (SimpleCache_Get cfg0 10 1
        (snd (SimpleCache_SetWithExpire cfg0 0 1 (Some 7) 5 simple0)))) = 0
   \<and> fst (LRUCache_Get cfg0 10 1 (snd (LRUCache_SetWithExpire cfg0 0 1 (Some 7) 5 lru0)))
     = (None, Some KeyNotFoundError)
   \<and> missCount (snd (LRUCache_Get cfg0 10 1
        (snd (LRUCache_SetWithExpire cfg0 0 1 (Some 7) 5 lru0)))) = 1"
  by (simp add: simple_defs lru_defs cfg0_def simple0_def lru0_def)

section \<open>Eviction in the unordered variant\<close>

lemma evict_scan_eq:
  "evict_scan count now current st
     = take (nat (count - current)) (map fst (filter (evict_candidate now) st))"
proof (induction st arbitrary: current)
  case Nil
  then show ?case by simp
next
  case (Cons p st)
  obtain k item where p: "p = (k, item)" by (cases p)
  show ?case
  proof (cases "current \<ge> count")
    case True
    then show ?thesis by (simp add: p)
  next
    case False
    then have "nat (count - current) = Suc (nat (count - (current + 1)))" by simp
    then show ?thesis using False Cons.IH[of "current + 1"] Cons.IH[of current]
      by (simp add: p evict_candidate_def)
  qed
qed

lemma store_remove: "store (snd (SimpleCache_remove cfg k c)) = AList.delete k (store c)"
  by (auto simp: SimpleCache_remove_def call_hook_def map_of_eq_None_iff split: option.splits)

lemma store_fold_remove:
  "store (fold (\<lambda>k c'. snd (SimpleCache_remove cfg k c')) ks c)
     = filter (\<lambda>p. fst p \<notin> set ks) (store c)"
proof (induction ks arbitrary: c)
  case Nil
  then show ?case by simp
next
  case (Cons k ks)
  show ?case
    by (simp add: Cons.IH store_remove AList.delete_eq case_prod_beta) (rule filter_cong, auto)
qed

lemma store_evict:
  "store (SimpleCache_evict cfg now n c)
     = filter (\<lambda>p. fst p \<notin> set (take (nat n) (map fst (filter (evict_candidate now) (store c)))))
         (store c)"
  by (simp add: SimpleCache_evict_def store_fold_remove evict_scan_eq)

lemma length_filter_not_in_take:
  assumes "distinct (map fst st)" and "set ks \<subseteq> fst ` set st" and "distinct ks"
  shows "length (filter (\<lambda>p. fst p \<notin> set ks) st) = length st - length ks"
proof -
  have "length (filter (\<lambda>p. fst p \<notin> set ks) st) = length (filter (\<lambda>k. k \<notin> set ks) (map fst st))"
    by (simp add: filter_map comp_def)
  also have "\<dots> = card (set (map fst st) - set ks)"
    using assms(1) by (metis (mono_tags, lifting) distinct_card distinct_filter set_diff_eq set_filter Collect_cong)
  also have "\<dots> = card (set (map fst st)) - card (set ks)"
    using assms(2) by (simp add: card_Diff_subset)
  also have "\<dots> = length st - length ks"
    using distinct_card[OF assms(1)] distinct_card[OF assms(3)] by simp
  finally show ?thesis .
qed

text \<open>
  Claim C2, as the code has it. \<open>evict n\<close> makes one pass over the mapping in iteration
  order and removes the first \<open>n\<close> entries that have no expiration set or whose
  expiration instant is strictly before the current time; the two kinds are treated
  alike. Whenever at least \<open>n\<close> such entries exist, exactly \<open>n\<close> entries are removed.
\<close>

theorem SimpleCache_evict_rule:
  assumes "distinct (map fst (store c))" and "0 \<le> n"
    and "nat n \<le> length (filter (evict_candidate now) (store c))"
  shows "store (SimpleCache_evict cfg now n c)
           = filter (\<lambda>p. fst p \<notin>
                 set (take (nat n) (map fst (filter (evict_candidate now) (store c)))))
               (store c)
       \<and> int (length (store (SimpleCache_evict cfg now n c))) = int (length (store c)) - n"
proof -
  let ?ks = "take (nat n) (map fst (filter (evict_candidate now) (store c)))"
  have d: "distinct ?ks"
    using assms(1) by (simp add: distinct_map_filter)
  have sub: "set ?ks \<subseteq> fst ` set (store c)"
    using set_take_subset[of "nat n" "map fst (filter (evict_candidate now) (store c))"] by auto
  have len: "length ?ks = nat n" using assms(3) by simp
  have "length (store c) \<ge> nat n"
    using assms(3) length_filter_le[of "evict_candidate now" "store c"] by linarith
  then show ?thesis
    using length_filter_not_in_take[OF assms(1) sub d] assms(2) len
    by (simp add: store_evict)
qed

theorem SimpleCache_evict_rule_witness:
  "store (SimpleCache_evict cfg0 10 2
      (simple0\<lparr>store := [(1, \<lparr>item_value = Some 1, item_expiration = Some 100\<rparr>),
                          (2, \<lparr>item_value = Some 2, item_expiration = None\<rparr>),
                          (3, \<lparr>item_value = Some 3, item_expiration = Some 5\<rparr>)]\<rparr>))
     = [(1, \<lparr>item_value = Some 1, item_expiration = Some 100\<rparr>)]"
  using SimpleCache_evict_rule[of
      "simple0\<lparr>store := [(1, \<lparr>item_value = Some 1, item_expiration = Some 100\<rparr>),
                          (2, \<lparr>item_value = Some 2, item_expiration = None\<rparr>),
                          (3, \<lparr>item_value = Some 3, item_expiration = Some 5\<rparr>)]\<rparr>" 2 10 cfg0]
  by (simp add: simple0_def evict_candidate_def)

text \<open>
  Claim C2 as stated says that expired entries are removed first and that an entry with
  no expiration is not preferred. Here the mapping holds an entry with no expiration
  followed by an expired one, and one entry is evicted: the code removes the entry with
  no expiration and keeps the expired one, the rule of the specification removes the
  expired one.
\<close>

theorem evict_expired_first_counterexample:
  "store (SimpleCache_evict cfg0 10 1
      (simple0\<lparr>store := [(1, \<lparr>item_value = Some 1, item_expiration = None\<rparr>),
                          (2, \<lparr>item_value = Some 2, item_expiration = Some 5\<rparr>)]\<rparr>))
     = [(2, \<lparr>item_value = Some 2, item_expiration = Some 5\<rparr>)]
   \<and> spec_Evict 10 1 [(1::nat, \<lparr>item_value = Some (1::nat), item_expiration = None\<rparr>),
                       (2, \<lparr>item_value = Some 2, item_expiration = Some 5\<rparr>)]
     = [(1, \<lparr>item_value = Some 1, item_expiration = None\<rparr>)]"
  by (simp add: SimpleCache_evict_def SimpleCache_remove_def call_hook_def cfg0_def simple0_def
                spec_Evict_def expired_at_def Let_def)

section \<open>The invariant of the recency-ordered variant\<close>

lemma lru_inv_lookup:
  assumes "lru_inv c" and "map_of (lru_store c) k = Some e"
  shows "e \<in> set (evictList c)" and "lru_key (elems c e) = k"
proof -
  have m: "(k, e) \<in> set (lru_store c)" using assms(2) by (rule map_of_SomeD)
  then have "e \<in> snd ` set (lru_store c)" by force
  then show "e \<in> set (evictList c)" using assms(1) by (simp add: lru_inv_def)
  show "lru_key (elems c e) = k" using assms(1) m by (auto simp: lru_inv_def)
qed

lemma lru_inv_elem:
  assumes "lru_inv c" and "e \<in> set (evictList c)"
  shows "map_of (lru_store c) (lru_key (elems c e)) = Some e"
proof -
  from assms have "e \<in> snd ` set (lru_store c)" by (simp add: lru_inv_def)
  then obtain k where m: "(k, e) \<in> set (lru_store c)" by force
  then have "lru_key (elems c e) = k" using assms(1) by (auto simp: lru_inv_def)
  moreover have "map_of (lru_store c) k = Some e"
  proof (rule map_of_is_SomeI)
    show "distinct (map fst (lru_store c))" using assms(1) by (simp add: lru_inv_def)
    show "(k, e) \<in> set (lru_store c)" by (rule m)
  qed
  ultimately show ?thesis by simp
qed

lemma lru_inv_key_inj:
  assumes "lru_inv c" and "a \<in> set (evictList c)" and "b \<in> set (evictList c)"
    and "lru_key (elems c a) = lru_key (elems c b)"
  shows "a = b"
proof -
  have "Some a = map_of (lru_store c) (lru_key (elems c a))"
    using lru_inv_elem[OF assms(1,2)] by simp
  also have "\<dots> = map_of (lru_store c) (lru_key (elems c b))" by (simp only: assms(4))
  also have "\<dots> = Some b" using lru_inv_elem[OF assms(1,3)] by simp
  finally show ?thesis by simp
qed

lemma lru_inv_length:
  assumes "lru_inv c"
  shows "length (lru_store c) = length (evictList c)"
proof -
  have d: "distinct (lru_store c)"
    using assms by (simp add: lru_inv_def distinct_map)
  have key: "\<And>k e. (k, e) \<in> set (lru_store c) \<Longrightarrow> lru_key (elems c e) = k"
    using assms by (auto simp: lru_inv_def)
  have "inj_on snd (set (lru_store c))"
  proof (rule inj_onI)
    fix x y assume xy: "x \<in> set (lru_store c)" "y \<in> set (lru_store c)" "snd x = snd y"
    obtain k1 e1 where x: "x = (k1, e1)" by (cases x)
    obtain k2 e2 where y: "y = (k2, e2)" by (cases y)
    have "k1 = lru_key (elems c e1)" using key[of k1 e1] xy(1) x by simp
    moreover have "k2 = lru_key (elems c e2)" using key[of k2 e2] xy(2) y by simp
    ultimately show "x = y" using xy(3) x y by simp
  qed
  then have "distinct (map snd (lru_store c))" using d by (simp add: distinct_map)
  then have "length (lru_store c) = card (snd ` set (lru_store c))"
    using distinct_card[of "map snd (lru_store c)"] by simp
  also have "\<dots> = length (evictList c)"
    using assms by (simp add: lru_inv_def distinct_card)
  finally show ?thesis .
qed

lemma lru_inv_bijection:
  assumes "lru_inv c"
  shows "hash_list_bijection c"
proof -
  have "\<forall>(k, e) \<in> set (lru_store c). e \<in> set (evictList c) \<and> lru_key (elems c e) = k"
  proof (clarify)
    fix k e assume m: "(k, e) \<in> set (lru_store c)"
    have "distinct (map fst (lru_store c))" using assms by (simp add: lru_inv_def)
    then have "map_of (lru_store c) k = Some e" using m by (rule map_of_is_SomeI)
    then show "e \<in> set (evictList c) \<and> lru_key (elems c e) = k"
      using lru_inv_lookup[OF assms] by blast
  qed
  then show ?thesis
    unfolding hash_list_bijection_def
    using assms lru_inv_length[OF assms] lru_inv_elem[OF assms]
    by (simp add: lru_inv_def LRUCache_Len_def)
qed

lemma lru_inv_init: "lru_inv (LRUCache_init c)"
  by (simp add: lru_inv_def LRUCache_init_def)

lemma lru_inv_cong:
  assumes "lru_store c' = lru_store c" and "evictList c' = evictList c"
    and "\<And>e. lru_key (elems c' e) = lru_key (elems c e)" and "nextElem c' = nextElem c"
  shows "lru_inv c' = lru_inv c"
  using assms by (simp add: lru_inv_def)

lemma lru_inv_removeElement:
  assumes "lru_inv c" and "e \<in> set (evictList c)"
  shows "lru_inv (LRUCache_removeElement cfg e c)"
proof -
  let ?k = "lru_key (elems c e)"
  have me: "map_of (lru_store c) ?k = Some e" by (rule lru_inv_elem[OF assms])
  have img: "snd ` set (AList.delete ?k (lru_store c)) = set (evictList c) - {e}"
  proof (rule set_eqI, rule iffI)
    fix x assume "x \<in> snd ` set (AList.delete ?k (lru_store c))"
    then obtain k' where k': "(k', x) \<in> set (lru_store c)" "k' \<noteq> ?k"
      by (auto simp: AList.delete_eq)
    then have "x \<in> set (evictList c)" using assms(1) by (force simp: lru_inv_def)
    moreover have "lru_key (elems c x) = k'" using assms(1) k'(1) by (auto simp: lru_inv_def)
    ultimately show "x \<in> set (evictList c) - {e}" using k'(2) by auto
  next
    fix x assume x: "x \<in> set (evictList c) - {e}"
    then have mx: "map_of (lru_store c) (lru_key (elems c x)) = Some x"
      using lru_inv_elem[OF assms(1)] by simp
    have "lru_key (elems c x) \<noteq> ?k" using mx me x by auto
    then have "(lru_key (elems c x), x) \<in> set (AList.delete ?k (lru_store c))"
      using map_of_SomeD[OF mx] by (auto simp: AList.delete_eq)
    then show "x \<in> snd ` set (AList.delete ?k (lru_store c))" by force
  qed
  have sub: "set (AList.delete ?k (lru_store c)) \<subseteq> set (lru_store c)"
    by (auto simp: AList.delete_eq)
  show ?thesis
    using assms(1) img sub
    by (auto simp: lru_inv_def LRUCache_removeElement_def Let_def call_hook_def list_Remove_def
                   distinct_delete)
qed

lemma lru_inv_evict_loop: "lru_inv c \<Longrightarrow> lru_inv (evict_loop cfg n c)"
proof (induction n arbitrary: c)
  case 0
  then show ?case by simp
next
  case (Suc n)
  show ?case
  proof (cases "evictList c = []")
    case True
    then show ?thesis using Suc.prems by (simp add: Back_def)
  next
    case False
    then have "last (evictList c) \<in> set (evictList c)" by simp
    then show ?thesis using Suc False by (simp add: Back_def lru_inv_removeElement)
  qed
qed

lemma lru_inv_evict: "lru_inv c \<Longrightarrow> lru_inv (LRUCache_evict cfg n c)"
  by (simp add: LRUCache_evict_def lru_inv_evict_loop)

lemma lru_inv_call_hook [simp]: "lru_inv (call_hook b ev c) = lru_inv c"
  by (simp add: call_hook_def lru_inv_def)

lemma lru_inv_IncrMissCount [simp]: "lru_inv (IncrMissCount c) = lru_inv c"
  by (simp add: IncrMissCount_def lru_inv_def)

lemma lru_inv_IncrHitCount [simp]: "lru_inv (IncrHitCount c) = lru_inv c"
  by (simp add: IncrHitCount_def lru_inv_def)

lemma set_MoveToFront [simp]: "set (MoveToFront e l) = set l"
proof (cases "e \<in> set l")
  case True
  have a: "set (remove1 e l) \<subseteq> set l" by (rule set_remove1_subset)
  have b: "\<forall>x. x \<in> set l \<and> x \<noteq> e \<longrightarrow> x \<in> set (remove1 e l)"
    by (simp add: in_set_remove1)
  have "insert e (set (remove1 e l)) = set l" using a b True by blast
  then show ?thesis using True by (simp add: MoveToFront_def)
next
  case False
  then show ?thesis by (simp add: MoveToFront_def)
qed

lemma update_fresh: "k \<notin> fst ` set al \<Longrightarrow> AList.update k v al = al @ [(k, v)]"
  by (induction al) auto

lemma distinct_MoveToFront [simp]: "distinct l \<Longrightarrow> distinct (MoveToFront e l)"
  by (simp add: MoveToFront_def)

lemma lru_inv_MoveToFront:
  "lru_inv c \<Longrightarrow> lru_inv (c\<lparr>evictList := MoveToFront e (evictList c)\<rparr>)"
  by (simp add: lru_inv_def)

lemma lru_inv_elems_upd:
  assumes "lru_inv c" and "lru_key x = lru_key (elems c e)"
  shows "lru_inv (c\<lparr>elems := (elems c)(e := x)\<rparr>)"
  using assms by (auto simp: lru_inv_def)

lemma lru_inv_push:
  assumes "lru_inv c" and "map_of (lru_store c) k = None"
  shows "lru_inv (c\<lparr>lru_store := AList.update k (nextElem c) (lru_store c),
                     evictList := PushFront (nextElem c) (evictList c),
                     elems := (elems c)(nextElem c := \<lparr>lru_key = k, lru_value = v, lru_expiration = x\<rparr>),
                     nextElem := Suc (nextElem c)\<rparr>)"
proof -
  have fresh: "nextElem c \<notin> set (evictList c)" using assms(1) by (auto simp: lru_inv_def)
  have notin: "k \<notin> fst ` set (lru_store c)" using assms(2) by (simp add: map_of_eq_None_iff)
  have upd: "AList.update k (nextElem c) (lru_store c) = lru_store c @ [(k, nextElem c)]"
    using notin by (rule update_fresh)
  have keys: "\<And>k' e'. (k', e') \<in> set (lru_store c) \<Longrightarrow> e' \<noteq> nextElem c"
    using assms(1) fresh by (force simp: lru_inv_def)
  show ?thesis
    using assms(1) fresh notin keys
    by (auto simp: lru_inv_def upd PushFront_def less_Suc_eq)
qed

lemma lookup_removeElement_None:
  "map_of (lru_store c) k = None \<Longrightarrow> map_of (lru_store (LRUCache_removeElement cfg e c)) k = None"
  by (simp add: LRUCache_removeElement_def Let_def call_hook_def delete_conv')

lemma lookup_evict_loop_None:
  "map_of (lru_store c) k = None \<Longrightarrow> map_of (lru_store (evict_loop cfg n c)) k = None"
  by (induction n arbitrary: c) (auto simp: lookup_removeElement_None split: option.splits)

lemma lru_inv_expire_upd:
  "lru_inv c \<Longrightarrow> lru_inv (c\<lparr>elems := (elems c)(e := (elems c e)\<lparr>lru_expiration := x\<rparr>)\<rparr>)"
  by (rule lru_inv_elems_upd) simp_all

lemma lru_inv_value_upd:
  "lru_inv c \<Longrightarrow> lru_inv (c\<lparr>elems := (elems c)(e := (elems c e)\<lparr>lru_value := x\<rparr>)\<rparr>)"
  by (rule lru_inv_elems_upd) simp_all

lemma lru_inv_set:
  assumes "lru_inv c"
  shows "lru_inv (snd (LRUCache_set cfg now k v c))"
proof -
  obtain val err where ser: "(case serializeFunc cfg of None \<Rightarrow> (v, None) | Some f \<Rightarrow> f k v) = (val, err)"
    by (cases "case serializeFunc cfg of None \<Rightarrow> (v, None) | Some f \<Rightarrow> f k v")
  show ?thesis
  proof (cases "err \<noteq> None")
    case True
    then show ?thesis using assms by (simp add: LRUCache_set_def ser)
  next
    case noerr: False
    show ?thesis
    proof (cases "map_of (lru_store c) k")
      case (Some it)
      show ?thesis
        using assms noerr Some
        by (auto simp: LRUCache_set_def ser Let_def lru_inv_def call_hook_def
                 split: option.splits)
    next
      case None
      define c0 where "c0 = (if int (length (evictList c)) \<ge> capacity cfg
                              then LRUCache_evict cfg 1 c else c)"
      have i0: "lru_inv c0" using assms by (simp add: c0_def lru_inv_evict)
      have n0: "map_of (lru_store c0) k = None"
        unfolding c0_def LRUCache_evict_def
        using None lookup_evict_loop_None[OF None, of cfg "nat 1"]
        by (cases "capacity cfg \<le> int (length (evictList c))") (simp_all only: if_True if_False)
      define c1 where "c1 = c0\<lparr>lru_store := AList.update k (nextElem c0) (lru_store c0),
                     evictList := PushFront (nextElem c0) (evictList c0),
                     elems := (elems c0)(nextElem c0 :=
                        \<lparr>lru_key = k, lru_value = val, lru_expiration = None\<rparr>),
                     nextElem := Suc (nextElem c0)\<rparr>"
      have p: "lru_inv c1" unfolding c1_def by (rule lru_inv_push[OF i0 n0])
      have "lru_inv (snd (LRUCache_set cfg now k v c)) = lru_inv c1"
        using noerr None
        by (intro lru_inv_cong)
           (simp_all add: LRUCache_set_def ser Let_def c0_def[symmetric] c1_def call_hook_def
                     split: option.splits)
      then show ?thesis using p by simp
    qed
  qed
qed

lemma lru_inv_setD: "lru_inv c \<Longrightarrow> LRUCache_set cfg now k v c = (r, c') \<Longrightarrow> lru_inv c'"
  using lru_inv_set[of c cfg now k v] by simp

lemma lru_inv_Set: "lru_inv c \<Longrightarrow> lru_inv (snd (LRUCache_Set cfg now k v c))"
  by (auto simp: LRUCache_Set_def split: prod.splits dest: lru_inv_setD)

lemma lru_inv_SetD: "lru_inv c \<Longrightarrow> LRUCache_Set cfg now k v c = (r, c') \<Longrightarrow> lru_inv c'"
  using lru_inv_Set[of c cfg now k v] by simp

lemma lru_inv_SetWithExpire:
  "lru_inv c \<Longrightarrow> lru_inv (snd (LRUCache_SetWithExpire cfg now k v d c))"
  by (auto simp: LRUCache_SetWithExpire_def lru_inv_expire_upd split: prod.splits option.splits
           dest: lru_inv_setD)

lemma lru_inv_get: 
  assumes "lru_inv c"
  shows "lru_inv (snd (LRUCache_get cfg now k onLoad c))"
proof (cases "map_of (lru_store c) k")
  case None
  then show ?thesis using assms by (simp add: LRUCache_get_def)
next
  case (Some e)
  have "e \<in> set (evictList c)" using lru_inv_lookup(1)[OF assms Some] .
  then show ?thesis
    using assms Some lru_inv_removeElement[OF assms, of e cfg] lru_inv_MoveToFront[OF assms, of e]
    by (auto simp: LRUCache_get_def Let_def split: option.splits prod.splits)
qed

lemma lru_inv_getWithLoader:
  "lru_inv c \<Longrightarrow> lru_inv (snd (LRUCache_getWithLoader cfg now k w c))"
  by (auto simp: LRUCache_getWithLoader_def load_def split: option.splits prod.splits if_splits
           dest: lru_inv_SetD)

lemma lru_inv_Get: "lru_inv c \<Longrightarrow> lru_inv (snd (LRUCache_Get cfg now k c))"
  using lru_inv_get[of c cfg now k False]
        lru_inv_getWithLoader[of "snd (LRUCache_get cfg now k False c)" cfg now k True]
  by (auto simp: LRUCache_Get_def split: prod.splits)

lemma lru_inv_GetIFPresent: "lru_inv c \<Longrightarrow> lru_inv (snd (LRUCache_GetIFPresent cfg now k c))"
  using lru_inv_get[of c cfg now k False]
        lru_inv_getWithLoader[of "snd (LRUCache_get cfg now k False c)" cfg now k False]
  by (auto simp: LRUCache_GetIFPresent_def split: prod.splits)

lemma lru_inv_Remove: "lru_inv c \<Longrightarrow> lru_inv (snd (LRUCache_Remove cfg k c))"
  by (auto simp: LRUCache_Remove_def LRUCache_remove_def lru_inv_removeElement lru_inv_lookup(1)
           split: option.splits)

lemma lru_inv_Purge: "lru_inv (LRUCache_Purge cfg c)"
  by (simp add: LRUCache_Purge_def lru_inv_init)

lemma lru_inv_step: "lru_inv c \<Longrightarrow> lru_inv (lru_step cfg op c)"
  by (cases op)
     (simp_all add: lru_inv_Set lru_inv_SetWithExpire lru_inv_Get lru_inv_GetIFPresent
                    lru_inv_Remove lru_inv_evict lru_inv_Purge)

lemma lru_inv_fold: "lru_inv c \<Longrightarrow> lru_inv (fold (lru_step cfg) ops c)"
  by (induction ops arbitrary: c) (simp_all add: lru_inv_step)

lemma lru_inv_run: "lru_inv (lru_run cfg ops c0)"
  by (simp add: lru_run_def lru_inv_fold lru_inv_init)

lemmas run_defs = lru_run_def LRUCache_init_def LRUCache_Remove_def LRUCache_remove_def LRUCache_Purge_def

text \<open>
  Claim C8. After every sequence of complete operations (\<open>Set\<close>, \<open>SetWithExpire\<close>, \<open>Get\<close>,
  \<open>GetIFPresent\<close>, \<open>Remove\<close>, \<open>evict\<close>, \<open>Purge\<close>) on a new cache, the mapping and the
  recency list are in bijection: every mapped key's element is in the list and carries
  that key, every list element's key is mapped to that element, and \<open>Len\<close> of the
  mapping is the length of the list.
\<close>

theorem hash_list_bijection_run: "hash_list_bijection (lru_run cfg ops c0)"
  by (rule lru_inv_bijection[OF lru_inv_run])

theorem hash_list_bijection_run_witness:
  "hash_list_bijection
     (lru_run (cfg0\<lparr>capacity := 2\<rparr>)
        [OpSet 0 1 (Some 7), OpSet 0 2 (Some 8), OpGet 0 1, OpSet 0 3 (Some 9), OpRemove 1] lru0)
   \<and> lru_store (lru_run (cfg0\<lparr>capacity := 2\<rparr>)
        [OpSet 0 1 (Some 7), OpSet 0 2 (Some 8), OpGet 0 1, OpSet 0 3 (Some 9), OpRemove 1] lru0)
       = [(3, 2)]
   \<and> evictList (lru_run (cfg0\<lparr>capacity := 2\<rparr>)
        [OpSet 0 1 (Some 7), OpSet 0 2 (Some 8), OpGet 0 1, OpSet 0 3 (Some 9), OpRemove 1] lru0)
       = [2]"
  using hash_list_bijection_run[of "cfg0\<lparr>capacity := 2\<rparr>"
        "[OpSet 0 1 (Some 7), OpSet 0 2 (Some 8), OpGet 0 1, OpSet 0 3 (Some 9), OpRemove 1]" lru0]
  by (simp add: run_defs lru_defs cfg0_def lru0_def)

section \<open>Recency order\<close>

lemma sorted_wrt_remove1: "sorted_wrt P l \<Longrightarrow> sorted_wrt P (remove1 x l)"
proof (induction l)
  case Nil
  then show ?case by simp
next
  case (Cons a l)
  have "set (remove1 x l) \<subseteq> set l" by (rule set_remove1_subset)
  then show ?case using Cons by auto
qed

lemma remove1_last: "distinct l \<Longrightarrow> l \<noteq> [] \<Longrightarrow> remove1 (last l) l = butlast l"
proof (induction l)
  case Nil
  then show ?case by simp
next
  case (Cons a l)
  then show ?case by (cases "l = []") auto
qed

lemma sorted_wrt_last:
  assumes "sorted_wrt P l" and "x \<in> set l" and "x \<noteq> last l"
  shows "P x (last l)"
proof -
  have ne: "l \<noteq> []" using assms(2) by auto
  then have l: "l = butlast l @ [last l]" by simp
  have "sorted_wrt P (butlast l @ [last l])" using assms(1) l by simp
  moreover have "x \<in> set (butlast l)"
    using assms(2,3) l by (metis Un_iff empty_iff empty_set insert_iff list.simps(15) set_append)
  ultimately show ?thesis by (simp add: sorted_wrt_append)
qed

lemma age_sorted_cong:
  assumes "evictList c' = evictList c" and "\<And>e. lru_key (elems c' e) = lru_key (elems c e)"
  shows "age_sorted h c' = age_sorted h c"
  using assms by (simp add: age_sorted_def)

lemma age_sorted_double: "age_sorted (k # k # h) c = age_sorted (k # h) c"
proof -
  have "(\<lambda>a b. age (k # k # h) (lru_key (elems c a)) < age (k # k # h) (lru_key (elems c b)))
      = (\<lambda>a b. age (k # h) (lru_key (elems c a)) < age (k # h) (lru_key (elems c b)))"
    by (intro ext) simp
  then show ?thesis by (simp only: age_sorted_def)
qed

lemma age_sorted_removeElement:
  "age_sorted h c \<Longrightarrow> age_sorted h (LRUCache_removeElement cfg e c)"
  by (simp add: age_sorted_def LRUCache_removeElement_def Let_def call_hook_def list_Remove_def
                sorted_wrt_remove1)

lemma age_sorted_evict_loop: "age_sorted h c \<Longrightarrow> age_sorted h (evict_loop cfg n c)"
  by (induction n arbitrary: c) (auto simp: age_sorted_removeElement split: option.splits)

lemma age_sorted_evict: "age_sorted h c \<Longrightarrow> age_sorted h (LRUCache_evict cfg n c)"
  by (simp add: LRUCache_evict_def age_sorted_evict_loop)

lemma age_sorted_touch_absent:
  assumes "age_sorted h c" and "\<forall>e \<in> set (evictList c). lru_key (elems c e) \<noteq> k"
  shows "age_sorted (k # h) c"
  unfolding age_sorted_def
  using assms(1)[unfolded age_sorted_def]
  by (rule sorted_wrt_mono_rel[rotated]) (use assms(2) in auto)

lemma age_sorted_touch_present:
  assumes "lru_inv c" and "age_sorted h c" and "e \<in> set (evictList c)"
    and "lru_key (elems c e) = k"
  shows "age_sorted (k # h) (c\<lparr>evictList := MoveToFront e (evictList c)\<rparr>)"
proof -
  have d: "distinct (evictList c)" using assms(1) by (simp add: lru_inv_def)
  have other: "\<forall>x \<in> set (remove1 e (evictList c)). lru_key (elems c x) \<noteq> k"
  proof
    fix x assume x: "x \<in> set (remove1 e (evictList c))"
    then have "x \<in> set (evictList c)" "x \<noteq> e" using d by auto
    then show "lru_key (elems c x) \<noteq> k"
      using lru_inv_key_inj[OF assms(1) _ assms(3), of x] assms(4) by auto
  qed
  have "sorted_wrt (\<lambda>a b. age h (lru_key (elems c a)) < age h (lru_key (elems c b)))
          (remove1 e (evictList c))"
    using assms(2) by (simp add: age_sorted_def sorted_wrt_remove1)
  then have "sorted_wrt (\<lambda>a b. age (k # h) (lru_key (elems c a)) < age (k # h) (lru_key (elems c b)))
          (remove1 e (evictList c))"
    by (rule sorted_wrt_mono_rel[rotated]) (use other in auto)
  then show ?thesis
    using assms(3,4) other by (auto simp: age_sorted_def MoveToFront_def)
qed

lemma lru_inv_absent:
  assumes "lru_inv c" and "map_of (lru_store c) k = None"
  shows "\<forall>e \<in> set (evictList c). lru_key (elems c e) \<noteq> k"
  using lru_inv_elem[OF assms(1)] assms(2) by auto

lemma age_sorted_push:
  assumes "lru_inv c" and "age_sorted h c" and "map_of (lru_store c) k = None"
  shows "age_sorted (k # h)
           (c\<lparr>lru_store := AList.update k (nextElem c) (lru_store c),
              evictList := PushFront (nextElem c) (evictList c),
              elems := (elems c)(nextElem c := \<lparr>lru_key = k, lru_value = v, lru_expiration = x\<rparr>),
              nextElem := Suc (nextElem c)\<rparr>)"
proof -
  let ?el = "(elems c)(nextElem c := \<lparr>lru_key = k, lru_value = v, lru_expiration = x\<rparr>)"
  have fresh: "\<forall>e \<in> set (evictList c). e \<noteq> nextElem c"
    using assms(1) by (auto simp: lru_inv_def)
  have other: "\<forall>e \<in> set (evictList c). lru_key (elems c e) \<noteq> k"
    by (rule lru_inv_absent[OF assms(1,3)])
  have "sorted_wrt (\<lambda>a b. age h (lru_key (elems c a)) < age h (lru_key (elems c b))) (evictList c)"
    using assms(2) by (simp add: age_sorted_def)
  then have "sorted_wrt (\<lambda>a b. age (k # h) (lru_key (?el a)) < age (k # h) (lru_key (?el b)))
               (evictList c)"
    by (rule sorted_wrt_mono_rel[rotated]) (use fresh other in auto)
  then show ?thesis
    using fresh other by (auto simp: age_sorted_def PushFront_def)
qed

lemma serialize_fails_iff:
  "(case serializeFunc cfg of None \<Rightarrow> (v, None) | Some f \<Rightarrow> f k v) = (val, err)
     \<Longrightarrow> serialize_fails cfg k v = (err \<noteq> None)"
  by (auto simp: serialize_fails_def split: option.splits)

lemma age_sorted_set:
  assumes "lru_inv c" and "age_sorted h c"
  shows "age_sorted (if serialize_fails cfg k v then h else k # h)
           (snd (LRUCache_set cfg now k v c))"
proof -
  obtain val err where ser: "(case serializeFunc cfg of None \<Rightarrow> (v, None) | Some f \<Rightarrow> f k v) = (val, err)"
    by (cases "case serializeFunc cfg of None \<Rightarrow> (v, None) | Some f \<Rightarrow> f k v")
  note sf = serialize_fails_iff[OF ser]
  show ?thesis
  proof (cases "err \<noteq> None")
    case True
    then show ?thesis using assms sf by (simp add: LRUCache_set_def ser)
  next
    case noerr: False
    show ?thesis
    proof (cases "map_of (lru_store c) k")
      case (Some it)
      have it: "it \<in> set (evictList c)" "lru_key (elems c it) = k"
        using lru_inv_lookup[OF assms(1) Some] by simp_all
      have a: "age_sorted (k # h) (c\<lparr>evictList := MoveToFront it (evictList c)\<rparr>)"
        by (rule age_sorted_touch_present[OF assms it])
      have "age_sorted (k # h) (snd (LRUCache_set cfg now k v c))
             = age_sorted (k # h) (c\<lparr>evictList := MoveToFront it (evictList c)\<rparr>)"
        using noerr Some
        by (intro age_sorted_cong)
           (simp_all add: LRUCache_set_def ser Let_def call_hook_def split: option.splits)
      then show ?thesis using a sf noerr by simp
    next
      case None
      define c0 where "c0 = (if int (length (evictList c)) \<ge> capacity cfg
                              then LRUCache_evict cfg 1 c else c)"
      have i0: "lru_inv c0" using assms by (simp add: c0_def lru_inv_evict)
      have a0: "age_sorted h c0" using assms by (simp add: c0_def age_sorted_evict)
      have n0: "map_of (lru_store c0) k = None"
        unfolding c0_def LRUCache_evict_def
        using None lookup_evict_loop_None[OF None, of cfg "nat 1"]
        by (cases "capacity cfg \<le> int (length (evictList c))") (simp_all only: if_True if_False)
      define c1 where "c1 = c0\<lparr>lru_store := AList.update k (nextElem c0) (lru_store c0),
                     evictList := PushFront (nextElem c0) (evictList c0),
                     elems := (elems c0)(nextElem c0 :=
                        \<lparr>lru_key = k, lru_value = val, lru_expiration = None\<rparr>),
                     nextElem := Suc (nextElem c0)\<rparr>"
      have p: "age_sorted (k # h) c1" unfolding c1_def by (rule age_sorted_push[OF i0 a0 n0])
      have "age_sorted (k # h) (snd (LRUCache_set cfg now k v c)) = age_sorted (k # h) c1"
        using noerr None
        by (intro age_sorted_cong)
           (simp_all add: LRUCache_set_def ser Let_def c0_def[symmetric] c1_def call_hook_def
                     split: option.splits)
      then show ?thesis using p sf noerr by simp
    qed
  qed
qed

lemma age_sorted_setD:
  "lru_inv c \<Longrightarrow> age_sorted h c \<Longrightarrow> LRUCache_set cfg now k v c = (r, c')
     \<Longrightarrow> age_sorted (if serialize_fails cfg k v then h else k # h) c'"
  using age_sorted_set[of c h cfg k v now] by simp

lemma age_sorted_Set:
  "lru_inv c \<Longrightarrow> age_sorted h c
     \<Longrightarrow> age_sorted (if serialize_fails cfg k v then h else k # h) (snd (LRUCache_Set cfg now k v c))"
  by (auto simp: LRUCache_Set_def split: prod.splits dest: age_sorted_setD)

lemma age_sorted_expire_upd:
  "age_sorted h (c\<lparr>elems := (elems c)(e := (elems c e)\<lparr>lru_expiration := x\<rparr>)\<rparr>) = age_sorted h c"
  by (rule age_sorted_cong) simp_all

lemma age_sorted_SetWithExpire:
  assumes "lru_inv c" and "age_sorted h c"
  shows "age_sorted (if serialize_fails cfg k v then h else k # h)
           (snd (LRUCache_SetWithExpire cfg now k v d c))"
proof -
  obtain r c' where s: "LRUCache_set cfg now k v c = (r, c')" by (cases "LRUCache_set cfg now k v c")
  have "age_sorted (if serialize_fails cfg k v then h else k # h) c'"
    by (rule age_sorted_setD[OF assms s])
  then show ?thesis
    by (cases r) (auto simp: LRUCache_SetWithExpire_def s age_sorted_expire_upd split: option.splits)
qed

lemma age_sorted_counters [simp]:
  "age_sorted h (IncrMissCount c) = age_sorted h c"
  "age_sorted h (IncrHitCount c) = age_sorted h c"
  "age_sorted h (call_hook b ev c) = age_sorted h c"
  by (simp_all add: age_sorted_def IncrMissCount_def IncrHitCount_def call_hook_def)

lemma age_sorted_get:
  assumes "lru_inv c" and "age_sorted h c"
  shows "age_sorted (k # h) (snd (LRUCache_get cfg now k onLoad c))"
proof (cases "map_of (lru_store c) k")
  case None
  have "age_sorted (k # h) c"
    by (rule age_sorted_touch_absent[OF assms(2) lru_inv_absent[OF assms(1) None]])
  then show ?thesis using None by (simp add: LRUCache_get_def)
next
  case (Some e)
  have e: "e \<in> set (evictList c)" "lru_key (elems c e) = k"
    using lru_inv_lookup[OF assms(1) Some] by simp_all
  show ?thesis
  proof (cases "isExpired (elems c e) None now")
    case True
    let ?c1 = "LRUCache_removeElement cfg e c"
    have i1: "lru_inv ?c1" by (rule lru_inv_removeElement[OF assms(1) e(1)])
    have a1: "age_sorted h ?c1" by (rule age_sorted_removeElement[OF assms(2)])
    have "map_of (lru_store ?c1) k = None"
      using e(2) by (simp add: LRUCache_removeElement_def Let_def call_hook_def delete_conv')
    then have "age_sorted (k # h) ?c1"
      using age_sorted_touch_absent[OF a1 lru_inv_absent[OF i1]] by simp
    then show ?thesis using Some True by (simp add: LRUCache_get_def Let_def)
  next
    case False
    have "age_sorted (k # h) (c\<lparr>evictList := MoveToFront e (evictList c)\<rparr>)"
      by (rule age_sorted_touch_present[OF assms e])
    then show ?thesis
      using Some False by (auto simp: LRUCache_get_def Let_def split: option.splits)
  qed
qed

lemma age_sorted_getWithLoader:
  assumes "lru_inv c" and "age_sorted (k # h) c"
  shows "age_sorted (k # h) (snd (LRUCache_getWithLoader cfg now k w c))"
proof (cases "loaderExpireFunc cfg")
  case None
  then show ?thesis using assms(2) by (simp add: LRUCache_getWithLoader_def)
next
  case (Some f)
  obtain v expir e where f: "f k = (v, expir, e)" by (cases "f k")
  show ?thesis
  proof (cases "e \<noteq> None")
    case True
    then show ?thesis using assms(2) Some f
      by (auto simp: LRUCache_getWithLoader_def load_def)
  next
    case False
    have "age_sorted (if serialize_fails cfg k v then k # h else k # k # h)
             (snd (LRUCache_Set cfg now k v c))"
      by (rule age_sorted_Set[OF assms])
    then have "age_sorted (k # h) (snd (LRUCache_Set cfg now k v c))"
      by (simp add: age_sorted_double split: if_splits)
    then show ?thesis using Some f False
      by (auto simp: LRUCache_getWithLoader_def load_def split: prod.splits)
  qed
qed

lemma age_sorted_Get:
  assumes "lru_inv c" and "age_sorted h c"
  shows "age_sorted (k # h) (snd (LRUCache_Get cfg now k c))"
  using age_sorted_get[OF assms, of k cfg now False]
        age_sorted_getWithLoader[OF lru_inv_get[OF assms(1), of cfg now k False]
           age_sorted_get[OF assms, of k cfg now False], of cfg now True]
  by (auto simp: LRUCache_Get_def split: prod.splits)

lemma age_sorted_GetIFPresent:
  assumes "lru_inv c" and "age_sorted h c"
  shows "age_sorted (k # h) (snd (LRUCache_GetIFPresent cfg now k c))"
  using age_sorted_get[OF assms, of k cfg now False]
        age_sorted_getWithLoader[OF lru_inv_get[OF assms(1), of cfg now k False]
           age_sorted_get[OF assms, of k cfg now False], of cfg now False]
  by (auto simp: LRUCache_GetIFPresent_def split: prod.splits)

lemma age_sorted_Remove:
  "age_sorted h c \<Longrightarrow> age_sorted h (snd (LRUCache_Remove cfg k c))"
  by (auto simp: LRUCache_Remove_def LRUCache_remove_def age_sorted_removeElement
           split: option.splits)

lemma age_sorted_Purge: "age_sorted h (LRUCache_Purge cfg c)"
  by (simp add: LRUCache_Purge_def LRUCache_init_def age_sorted_def)

lemma age_sorted_step:
  assumes "lru_inv c" and "age_sorted h c"
  shows "age_sorted (case touched_key cfg op of None \<Rightarrow> h | Some k \<Rightarrow> k # h) (lru_step cfg op c)"
proof (cases op)
  case (OpSet now k v)
  then show ?thesis using age_sorted_Set[OF assms, of cfg k v now] by (simp split: if_splits)
next
  case (OpSetWithExpire now k v d)
  then show ?thesis using age_sorted_SetWithExpire[OF assms, of cfg k v now d]
    by (simp split: if_splits)
next
  case (OpGet now k)
  then show ?thesis using age_sorted_Get[OF assms] by simp
next
  case (OpGetIFPresent now k)
  then show ?thesis using age_sorted_GetIFPresent[OF assms] by simp
next
  case (OpRemove k)
  then show ?thesis using age_sorted_Remove[OF assms(2)] by simp
next
  case (OpEvict n)
  then show ?thesis using age_sorted_evict[OF assms(2)] by simp
next
  case OpPurge
  then show ?thesis using age_sorted_Purge by simp
qed

lemma age_sorted_fold:
  "lru_inv c \<Longrightarrow> age_sorted h c \<Longrightarrow> age_sorted (touches cfg ops h) (fold (lru_step cfg) ops c)"
proof (induction ops arbitrary: c h)
  case Nil
  then show ?case by simp
next
  case (Cons op ops)
  show ?case
    using Cons.IH[OF lru_inv_step[OF Cons.prems(1)] age_sorted_step[OF Cons.prems]] by simp
qed

lemma age_sorted_run: "age_sorted (touches cfg ops []) (lru_run cfg ops c0)"
  unfolding lru_run_def
  by (rule age_sorted_fold[OF lru_inv_init]) (simp add: age_sorted_def LRUCache_init_def)

lemma Set_existing_front:
  assumes "lru_inv c" and "map_of (lru_store c) k = Some e" and "\<not> serialize_fails cfg k v"
  shows "evictList (snd (LRUCache_Set cfg now k v c)) = e # remove1 e (evictList c)"
    and "lru_store (snd (LRUCache_Set cfg now k v c)) = lru_store c"
proof -
  obtain val err where ser: "(case serializeFunc cfg of None \<Rightarrow> (v, None) | Some f \<Rightarrow> f k v) = (val, err)"
    by (cases "case serializeFunc cfg of None \<Rightarrow> (v, None) | Some f \<Rightarrow> f k v")
  have noerr: "err = None" using serialize_fails_iff[OF ser] assms(3) by simp
  have e: "e \<in> set (evictList c)" using lru_inv_lookup(1)[OF assms(1,2)] .
  show "evictList (snd (LRUCache_Set cfg now k v c)) = e # remove1 e (evictList c)"
    using assms(2) noerr e
    by (simp add: LRUCache_Set_def LRUCache_set_def ser Let_def call_hook_def MoveToFront_def
             split: option.splits)
  show "lru_store (snd (LRUCache_Set cfg now k v c)) = lru_store c"
    using assms(2) noerr
    by (simp add: LRUCache_Set_def LRUCache_set_def ser Let_def call_hook_def
             split: option.splits)
qed

lemma Set_failed_same:
  "serialize_fails cfg k v \<Longrightarrow> snd (LRUCache_Set cfg now k v c) = c"
  by (auto simp: LRUCache_Set_def LRUCache_set_def serialize_fails_def Let_def
           split: option.splits prod.splits)

lemma Get_hit_front:
  assumes "lru_inv c" and "map_of (lru_store c) k = Some e"
    and "\<not> isExpired (elems c e) None now"
  shows "evictList (snd (LRUCache_Get cfg now k c)) = e # remove1 e (evictList c)"
proof -
  have e: "e \<in> set (evictList c)" using lru_inv_lookup(1)[OF assms(1,2)] .
  obtain r c1 where g: "LRUCache_get cfg now k False c = (r, c1)"
    by (cases "LRUCache_get cfg now k False c")
  have l1: "evictList c1 = e # remove1 e (evictList c)" and s1: "lru_store c1 = lru_store c"
    using g assms(2,3) e
    by (auto simp: LRUCache_get_def Let_def MoveToFront_def IncrHitCount_def split: option.splits)
  have i1: "lru_inv c1" using lru_inv_get[OF assms(1), of cfg now k False] g by simp
  have m1: "map_of (lru_store c1) k = Some e" using assms(2) s1 by simp
  have S: "evictList (snd (LRUCache_Set cfg now k v c1)) = e # remove1 e (evictList c)" for v
  proof (cases "serialize_fails cfg k v")
    case True
    then show ?thesis using l1 by (simp add: Set_failed_same)
  next
    case False
    show ?thesis using Set_existing_front(1)[OF i1 m1 False, of now] l1 by simp
  qed
  have "evictList (snd (LRUCache_getWithLoader cfg now k True c1)) = e # remove1 e (evictList c)"
  proof (cases "loaderExpireFunc cfg")
    case None
    then show ?thesis using l1 by (simp add: LRUCache_getWithLoader_def)
  next
    case (Some f)
    obtain v expir er where f: "f k = (v, expir, er)" by (cases "f k")
    show ?thesis using Some f l1 S[of v]
      by (auto simp: LRUCache_getWithLoader_def load_def split: prod.splits)
  qed
  then show ?thesis using g l1 by (auto simp: LRUCache_Get_def split: prod.splits)
qed

lemma evict_loop_back:
  "lru_inv c \<Longrightarrow> evictList (evict_loop cfg n c) = take (length (evictList c) - n) (evictList c)"
proof (induction n arbitrary: c)
  case 0
  then show ?case by simp
next
  case (Suc n)
  show ?case
  proof (cases "evictList c = []")
    case True
    then show ?thesis by (simp add: Back_def)
  next
    case False
    let ?c1 = "LRUCache_removeElement cfg (last (evictList c)) c"
    have d: "distinct (evictList c)" using Suc.prems by (simp add: lru_inv_def)
    have l1: "evictList ?c1 = butlast (evictList c)"
      using remove1_last[OF d False]
      by (simp add: LRUCache_removeElement_def Let_def call_hook_def list_Remove_def)
    have i1: "lru_inv ?c1" using Suc.prems False by (simp add: lru_inv_removeElement)
    show ?thesis
      using Suc.IH[OF i1] False l1 by (simp add: Back_def butlast_conv_take min_def)
  qed
qed

lemma evict_back:
  "lru_inv c \<Longrightarrow> evictList (LRUCache_evict cfg n c)
     = take (length (evictList c) - nat n) (evictList c)"
  by (simp add: LRUCache_evict_def evict_loop_back)

lemma filter_eq_distinct: "distinct xs \<Longrightarrow> x \<in> set xs \<Longrightarrow> filter (\<lambda>y. y = x) xs = [x]"
  by (induction xs) (auto simp: filter_empty_conv)

lemma Set_overflow_store:
  assumes "map_of (lru_store c) k = None" and "\<not> serialize_fails cfg k v"
    and "evictList c \<noteq> []" and "capacity cfg \<le> int (length (evictList c))"
  shows "lru_store (snd (LRUCache_Set cfg now k v c))
           = AList.update k (nextElem c)
               (AList.delete (lru_key (elems c (last (evictList c)))) (lru_store c))"
proof -
  obtain val err where ser: "(case serializeFunc cfg of None \<Rightarrow> (v, None) | Some f \<Rightarrow> f k v) = (val, err)"
    by (cases "case serializeFunc cfg of None \<Rightarrow> (v, None) | Some f \<Rightarrow> f k v")
  have noerr: "err = None" using serialize_fails_iff[OF ser] assms(2) by simp
  show ?thesis
    using assms(1,3,4) noerr
    by (simp add: LRUCache_Set_def LRUCache_set_def ser Let_def call_hook_def LRUCache_evict_def
                  Back_def LRUCache_removeElement_def split: option.splits)
qed

lemma Set_overflow_victim:
  assumes "lru_inv c" and "age_sorted h c"
    and "map_of (lru_store c) k = None" and "\<not> serialize_fails cfg k v"
    and "evictList c \<noteq> []" and "capacity cfg \<le> int (length (evictList c))"
  shows "evicted_keys c (snd (LRUCache_Set cfg now k v c)) = [lru_key (elems c (last (evictList c)))]"
    and "\<forall>k' \<in> set (map fst (lru_store c)). k' \<noteq> lru_key (elems c (last (evictList c)))
           \<longrightarrow> age h k' < age h (lru_key (elems c (last (evictList c))))"
proof -
  let ?b = "last (evictList c)"
  let ?ke = "lru_key (elems c ?b)"
  have b: "?b \<in> set (evictList c)" using assms(5) by simp
  have mb: "map_of (lru_store c) ?ke = Some ?b" by (rule lru_inv_elem[OF assms(1) b])
  have d: "distinct (map fst (lru_store c))" using assms(1) by (simp add: lru_inv_def)
  have ke: "?ke \<in> set (map fst (lru_store c))" using map_of_SomeD[OF mb] by force
  have "filter (\<lambda>k'. map_of (AList.update k (nextElem c) (AList.delete ?ke (lru_store c))) k' = None)
               (map fst (lru_store c))
        = filter (\<lambda>k'. k' = ?ke) (map fst (lru_store c))"
  proof (rule filter_cong[OF refl])
    fix k' assume k': "k' \<in> set (map fst (lru_store c))"
    then have "map_of (lru_store c) k' \<noteq> None" by (simp add: map_of_eq_None_iff)
    moreover have "k' \<noteq> k" using k' assms(3) by (auto simp: map_of_eq_None_iff)
    ultimately show "(map_of (AList.update k (nextElem c) (AList.delete ?ke (lru_store c))) k' = None)
                      = (k' = ?ke)"
      by (auto simp: update_conv' delete_conv')
  qed
  then show "evicted_keys c (snd (LRUCache_Set cfg now k v c)) = [?ke]"
    using filter_eq_distinct[OF d ke]
    by (simp add: evicted_keys_def Set_overflow_store[OF assms(3,4,5,6)])
  show "\<forall>k' \<in> set (map fst (lru_store c)). k' \<noteq> ?ke \<longrightarrow> age h k' < age h ?ke"
  proof (intro ballI impI)
    fix k' assume k': "k' \<in> set (map fst (lru_store c))" and ne: "k' \<noteq> ?ke"
    then obtain e' where m: "map_of (lru_store c) k' = Some e'"
      by (cases "map_of (lru_store c) k'") (auto simp: map_of_eq_None_iff)
    have e': "e' \<in> set (evictList c)" "lru_key (elems c e') = k'"
      using lru_inv_lookup[OF assms(1) m] by simp_all
    have "e' \<noteq> ?b" using e'(2) ne by auto
    then show "age h k' < age h ?ke"
      using sorted_wrt_last[OF assms(2)[unfolded age_sorted_def] e'(1)] e'(2) by simp
  qed
qed

lemma keys_removeElement:
  "fst ` set (lru_store (LRUCache_removeElement cfg e c)) \<subseteq> fst ` set (lru_store c)"
  by (auto simp: LRUCache_removeElement_def Let_def call_hook_def AList.delete_eq)

lemma keys_evict_loop: "fst ` set (lru_store (evict_loop cfg n c)) \<subseteq> fst ` set (lru_store c)"
proof (induction n arbitrary: c)
  case 0
  then show ?case by simp
next
  case (Suc n)
  show ?case
  proof (cases "Back (evictList c)")
    case None
    then show ?thesis by simp
  next
    case (Some ent)
    show ?thesis
      using Suc.IH[of "LRUCache_removeElement cfg ent c"] keys_removeElement[of cfg ent c] Some
      by auto
  qed
qed

lemma keys_set:
  "fst ` set (lru_store (snd (LRUCache_set cfg now k v c)))
     \<subseteq> (if serialize_fails cfg k v then {} else {k}) \<union> fst ` set (lru_store c)"
proof -
  obtain val err where ser: "(case serializeFunc cfg of None \<Rightarrow> (v, None) | Some f \<Rightarrow> f k v) = (val, err)"
    by (cases "case serializeFunc cfg of None \<Rightarrow> (v, None) | Some f \<Rightarrow> f k v")
  note sf = serialize_fails_iff[OF ser]
  show ?thesis
  proof (cases "err \<noteq> None")
    case True
    then show ?thesis by (simp add: LRUCache_set_def ser)
  next
    case False
    have "fst ` set (lru_store (LRUCache_evict cfg 1 c)) \<subseteq> fst ` set (lru_store c)"
      unfolding LRUCache_evict_def by (rule keys_evict_loop)
    then show ?thesis
      using False sf
      by (auto simp: LRUCache_set_def ser Let_def call_hook_def dom_update
               split: option.splits)
  qed
qed

lemma keys_Set:
  "fst ` set (lru_store (snd (LRUCache_Set cfg now k v c)))
     \<subseteq> (if serialize_fails cfg k v then {} else {k}) \<union> fst ` set (lru_store c)"
proof -
  have "snd (LRUCache_Set cfg now k v c) = snd (LRUCache_set cfg now k v c)"
    by (simp add: LRUCache_Set_def split: prod.splits)
  then show ?thesis by (simp only: keys_set)
qed

lemma store_SetWithExpire:
  "lru_store (snd (LRUCache_SetWithExpire cfg now k v d c))
     = lru_store (snd (LRUCache_set cfg now k v c))"
  by (auto simp: LRUCache_SetWithExpire_def split: prod.splits option.splits)

lemma keys_get:
  "fst ` set (lru_store (snd (LRUCache_get cfg now k onLoad c))) \<subseteq> fst ` set (lru_store c)"
  using keys_removeElement[of cfg _ c]
  by (auto simp: LRUCache_get_def Let_def IncrMissCount_def IncrHitCount_def
           split: option.splits)

lemma keys_getWithLoader:
  "fst ` set (lru_store (snd (LRUCache_getWithLoader cfg now k w c)))
     \<subseteq> {k} \<union> fst ` set (lru_store c)"
proof (cases "loaderExpireFunc cfg")
  case None
  then have "snd (LRUCache_getWithLoader cfg now k w c) = c"
    by (simp add: LRUCache_getWithLoader_def)
  then show ?thesis by auto
next
  case (Some f)
  obtain v expir er where f: "f k = (v, expir, er)" by (cases "f k")
  have S: "fst ` set (lru_store (snd (LRUCache_Set cfg now k v c))) \<subseteq> {k} \<union> fst ` set (lru_store c)"
    using keys_Set[of cfg now k v c] by (cases "serialize_fails cfg k v") auto
  have "snd (LRUCache_getWithLoader cfg now k w c) = c
      \<or> snd (LRUCache_getWithLoader cfg now k w c) = snd (LRUCache_Set cfg now k v c)"
    using Some f by (auto simp: LRUCache_getWithLoader_def load_def split: prod.splits)
  then show ?thesis
  proof
    assume "snd (LRUCache_getWithLoader cfg now k w c) = c"
    then show ?thesis by auto
  next
    assume "snd (LRUCache_getWithLoader cfg now k w c) = snd (LRUCache_Set cfg now k v c)"
    then show ?thesis using S by simp
  qed
qed

lemma keys_Get:
  "fst ` set (lru_store (snd (LRUCache_Get cfg now k c))) \<subseteq> {k} \<union> fst ` set (lru_store c)"
proof -
  obtain r c1 where g: "LRUCache_get cfg now k False c = (r, c1)"
    by (cases "LRUCache_get cfg now k False c")
  have 1: "fst ` set (lru_store c1) \<subseteq> fst ` set (lru_store c)"
    using keys_get[of cfg now k False c] g by simp
  have 2: "fst ` set (lru_store (snd (LRUCache_getWithLoader cfg now k True c1)))
             \<subseteq> {k} \<union> fst ` set (lru_store c1)"
    by (rule keys_getWithLoader)
  have "snd (LRUCache_Get cfg now k c) = c1
      \<or> snd (LRUCache_Get cfg now k c) = snd (LRUCache_getWithLoader cfg now k True c1)"
    by (auto simp: LRUCache_Get_def g split: prod.splits)
  then show ?thesis
  proof
    assume "snd (LRUCache_Get cfg now k c) = c1"
    then show ?thesis using 1 by auto
  next
    assume "snd (LRUCache_Get cfg now k c) = snd (LRUCache_getWithLoader cfg now k True c1)"
    then show ?thesis using 1 2 by (simp only:) blast
  qed
qed

lemma keys_GetIFPresent:
  "fst ` set (lru_store (snd (LRUCache_GetIFPresent cfg now k c)))
     \<subseteq> {k} \<union> fst ` set (lru_store c)"
proof -
  obtain r c1 where g: "LRUCache_get cfg now k False c = (r, c1)"
    by (cases "LRUCache_get cfg now k False c")
  have 1: "fst ` set (lru_store c1) \<subseteq> fst ` set (lru_store c)"
    using keys_get[of cfg now k False c] g by simp
  have 2: "fst ` set (lru_store (snd (LRUCache_getWithLoader cfg now k False c1)))
             \<subseteq> {k} \<union> fst ` set (lru_store c1)"
    by (rule keys_getWithLoader)
  have "snd (LRUCache_GetIFPresent cfg now k c) = c1
      \<or> snd (LRUCache_GetIFPresent cfg now k c) = snd (LRUCache_getWithLoader cfg now k False c1)"
    by (auto simp: LRUCache_GetIFPresent_def g split: prod.splits)
  then show ?thesis
  proof
    assume "snd (LRUCache_GetIFPresent cfg now k c) = c1"
    then show ?thesis using 1 by auto
  next
    assume "snd (LRUCache_GetIFPresent cfg now k c) = snd (LRUCache_getWithLoader cfg now k False c1)"
    then show ?thesis using 1 2 by (simp only:) blast
  qed
qed

lemma keys_step:
  "fst ` set (lru_store (lru_step cfg op c))
     \<subseteq> (case touched_key cfg op of None \<Rightarrow> {} | Some k \<Rightarrow> {k}) \<union> fst ` set (lru_store c)"
proof (cases op)
  case (OpSet now k v)
  then show ?thesis using keys_Set[of cfg now k v c] by (simp split: if_splits)
next
  case (OpSetWithExpire now k v d)
  then show ?thesis using keys_set[of cfg now k v c]
    by (simp add: store_SetWithExpire split: if_splits)
next
  case (OpGet now k)
  then show ?thesis using keys_Get[of cfg now k c] by simp
next
  case (OpGetIFPresent now k)
  then show ?thesis using keys_GetIFPresent[of cfg now k c] by simp
next
  case (OpRemove k)
  then show ?thesis using keys_removeElement[of cfg _ c]
    by (auto simp: LRUCache_Remove_def LRUCache_remove_def split: option.splits)
next
  case (OpEvict n)
  then show ?thesis using keys_evict_loop[of cfg "nat n" c] by (simp add: LRUCache_evict_def)
next
  case OpPurge
  then show ?thesis by (simp add: LRUCache_Purge_def LRUCache_init_def)
qed

lemma keys_fold:
  "fst ` set (lru_store c) \<subseteq> set h
     \<Longrightarrow> fst ` set (lru_store (fold (lru_step cfg) ops c)) \<subseteq> set (touches cfg ops h)"
proof (induction ops arbitrary: c h)
  case Nil
  then show ?case by simp
next
  case (Cons op ops)
  have "fst ` set (lru_store (lru_step cfg op c))
          \<subseteq> set (case touched_key cfg op of None \<Rightarrow> h | Some k \<Rightarrow> k # h)"
  proof (cases "touched_key cfg op")
    case None
    then show ?thesis using keys_step[of cfg op c] Cons.prems by simp
  next
    case (Some k)
    then have "fst ` set (lru_store (lru_step cfg op c)) \<subseteq> {k} \<union> fst ` set (lru_store c)"
      using keys_step[of cfg op c] by simp
    then have "fst ` set (lru_store (lru_step cfg op c)) \<subseteq> {k} \<union> set h"
      using Cons.prems by blast
    then show ?thesis using Some by simp
  qed
  then show ?case using Cons.IH by simp
qed

lemma keys_run: "fst ` set (lru_store (lru_run cfg ops c0)) \<subseteq> set (touches cfg ops [])"
  unfolding lru_run_def by (rule keys_fold) (simp add: LRUCache_init_def)

text \<open>
  Claim C5. Let \<open>c\<close> be the cache after any sequence of operations on a new cache and \<open>h\<close>
  the keys these operations touched, the most recent first. \<open>Set\<close> on an existing key
  moves its element to the front of the recency list; \<open>Get\<close> on a hit moves the element
  to the front; \<open>evict n\<close> removes the last \<open>n\<close> elements, from the back. Every key of
  the mapping has been touched, and when a \<open>Set\<close> of a new key overflows the capacity,
  exactly one key leaves the mapping and it is the least recently touched one: every
  other key of the mapping has been touched more recently.
\<close>

theorem lru_recency_order:
  assumes "c = lru_run cfg ops c0" and "h = touches cfg ops []"
  shows "(map_of (lru_store c) k = Some e \<and> \<not> serialize_fails cfg k v \<longrightarrow>
            evictList (snd (LRUCache_Set cfg now k v c)) = e # remove1 e (evictList c))
       \<and> (map_of (lru_store c) k = Some e \<and> \<not> isExpired (elems c e) None now \<longrightarrow>
            evictList (snd (LRUCache_Get cfg now k c)) = e # remove1 e (evictList c))
       \<and> evictList (LRUCache_evict cfg n c) = take (length (evictList c) - nat n) (evictList c)
       \<and> set (map fst (lru_store c)) \<subseteq> set h
       \<and> (map_of (lru_store c) k = None \<and> \<not> serialize_fails cfg k v \<and> evictList c \<noteq> []
            \<and> capacity cfg \<le> int (length (evictList c)) \<longrightarrow>
            (\<exists>ke. evicted_keys c (snd (LRUCache_Set cfg now k v c)) = [ke]
                \<and> (\<forall>k' \<in> set (map fst (lru_store c)). k' \<noteq> ke \<longrightarrow> age h k' < age h ke)))"
proof -
  have i: "lru_inv c" unfolding assms(1) by (rule lru_inv_run)
  have a: "age_sorted h c" unfolding assms by (rule age_sorted_run)
  have t: "set (map fst (lru_store c)) \<subseteq> set h"
    unfolding assms using keys_run[of cfg ops c0] by simp
  show ?thesis
    using Set_existing_front(1)[OF i, where k=k and e=e and cfg=cfg and v=v and now=now]
          Get_hit_front[OF i, where k=k and e=e and cfg=cfg and now=now]
          evict_back[OF i, where cfg=cfg and n=n] t
          Set_overflow_victim(1)[OF i a, where k=k and cfg=cfg and v=v and now=now]
          Set_overflow_victim(2)[OF i a, where k=k and cfg=cfg and v=v]
    by blast
qed

theorem lru_recency_order_witness:
  "evictList (snd (LRUCache_Set (cfg0\<lparr>capacity := 2\<rparr>) 1 2 (Some 9)
      (lru_run (cfg0\<lparr>capacity := 2\<rparr>) [OpSet 0 1 (Some 7), OpSet 0 2 (Some 8), OpGet 0 1] lru0)))
     = [1, 0]
   \<and> evictList (snd (LRUCache_Get (cfg0\<lparr>capacity := 2\<rparr>) 1 2
      (lru_run (cfg0\<lparr>capacity := 2\<rparr>) [OpSet 0 1 (Some 7), OpSet 0 2 (Some 8), OpGet 0 1] lru0)))
     = [1, 0]
   \<and> evictList (LRUCache_evict (cfg0\<lparr>capacity := 2\<rparr>) 1
      (lru_run (cfg0\<lparr>capacity := 2\<rparr>) [OpSet 0 1 (Some 7), OpSet 0 2 (Some 8), OpGet 0 1] lru0))
     = [0]
   \<and> evicted_keys
        (lru_run (cfg0\<lparr>capacity := 2\<rparr>) [OpSet 0 1 (Some 7), OpSet 0 2 (Some 8), OpGet 0 1] lru0)
        (snd (LRUCache_Set (cfg0\<lparr>capacity := 2\<rparr>) 1 3 (Some 9)
           (lru_run (cfg0\<lparr>capacity := 2\<rparr>) [OpSet 0 1 (Some 7), OpSet 0 2 (Some 8), OpGet 0 1] lru0)))
     = [2]
   \<and> age (touches (cfg0\<lparr>capacity := 2\<rparr>) [OpSet 0 1 (Some 7), OpSet 0 2 (Some 8), OpGet 0 1] []) 1
     < age (touches (cfg0\<lparr>capacity := 2\<rparr>) [OpSet 0 1 (Some 7), OpSet 0 2 (Some 8), OpGet 0 1] []) 2"
  using lru_recency_order[OF refl refl, where cfg="cfg0\<lparr>capacity := 2\<rparr>"
          and ops="[OpSet 0 1 (Some 7), OpSet 0 2 (Some 8), OpGet 0 1]" and ?c0.0=lru0
          and k=2 and e=1 and v="Some 9" and now=1 and n=1]
        lru_recency_order[OF refl refl, where cfg="cfg0\<lparr>capacity := 2\<rparr>"
          and ops="[OpSet 0 1 (Some 7), OpSet 0 2 (Some 8), OpGet 0 1]" and ?c0.0=lru0
          and k=3 and e=0 and v="Some 9" and now=1 and n=1]
  by (simp add: run_defs lru_defs cfg0_def lru0_def serialize_fails_def evicted_keys_def)

section \<open>Capacity of the recency-ordered variant\<close>

lemma length_MoveToFront [simp]: "length (MoveToFront e l) = length l"
  by (auto simp: MoveToFront_def length_remove1 dest: length_pos_if_in_set)

lemma length_removeElement:
  "length (evictList (LRUCache_removeElement cfg e c)) \<le> length (evictList c)"
  by (simp add: LRUCache_removeElement_def Let_def call_hook_def list_Remove_def length_remove1)

lemma length_evict_loop: "length (evictList (evict_loop cfg n c)) \<le> length (evictList c)"
proof (induction n arbitrary: c)
  case 0
  then show ?case by simp
next
  case (Suc n)
  show ?case
  proof (cases "Back (evictList c)")
    case None
    then show ?thesis by simp
  next
    case (Some ent)
    show ?thesis
      using Suc.IH[of "LRUCache_removeElement cfg ent c"] length_removeElement[of cfg ent c] Some
      by simp
  qed
qed

lemma length_set:
  assumes "lru_inv c" and "0 < capacity cfg"
  shows "int (length (evictList c)) \<le> capacity cfg
           \<Longrightarrow> int (length (evictList (snd (LRUCache_set cfg now k v c)))) \<le> capacity cfg"
    and "int (length (evictList c)) = capacity cfg
           \<Longrightarrow> int (length (evictList (snd (LRUCache_set cfg now k v c)))) = capacity cfg"
proof -
  obtain val err where ser: "(case serializeFunc cfg of None \<Rightarrow> (v, None) | Some f \<Rightarrow> f k v) = (val, err)"
    by (cases "case serializeFunc cfg of None \<Rightarrow> (v, None) | Some f \<Rightarrow> f k v")
  have ev: "evictList c \<noteq> [] \<Longrightarrow>
        length (evictList (LRUCache_evict cfg 1 c)) = length (evictList c) - 1"
    using evict_back[OF assms(1), of cfg 1] by simp
  have ne: "capacity cfg \<le> int (length (evictList c)) \<Longrightarrow> evictList c \<noteq> []"
    using assms(2) by auto
  show "int (length (evictList c)) \<le> capacity cfg
           \<Longrightarrow> int (length (evictList (snd (LRUCache_set cfg now k v c)))) \<le> capacity cfg"
    using ev ne
    by (cases "evictList c = []")
       (auto simp: LRUCache_set_def ser Let_def call_hook_def PushFront_def
             split: option.splits)
  show "int (length (evictList c)) = capacity cfg
           \<Longrightarrow> int (length (evictList (snd (LRUCache_set cfg now k v c)))) = capacity cfg"
    using ev ne
    by (cases "evictList c = []")
       (auto simp: LRUCache_set_def ser Let_def call_hook_def PushFront_def
             split: option.splits)
qed

lemma length_Set:
  assumes "lru_inv c" and "0 < capacity cfg" and "int (length (evictList c)) \<le> capacity cfg"
  shows "int (length (evictList (snd (LRUCache_Set cfg now k v c)))) \<le> capacity cfg"
proof -
  have "snd (LRUCache_Set cfg now k v c) = snd (LRUCache_set cfg now k v c)"
    by (simp add: LRUCache_Set_def split: prod.splits)
  then show ?thesis using length_set(1)[OF assms] by simp
qed

lemma evictList_SetWithExpire:
  "evictList (snd (LRUCache_SetWithExpire cfg now k v d c))
     = evictList (snd (LRUCache_set cfg now k v c))"
  by (auto simp: LRUCache_SetWithExpire_def split: prod.splits option.splits)

lemma length_get:
  "length (evictList (snd (LRUCache_get cfg now k onLoad c))) \<le> length (evictList c)"
  using length_removeElement[of cfg _ c]
  by (auto simp: LRUCache_get_def Let_def IncrMissCount_def IncrHitCount_def
           split: option.splits)

lemma length_getWithLoader:
  assumes "lru_inv c" and "0 < capacity cfg" and "int (length (evictList c)) \<le> capacity cfg"
  shows "int (length (evictList (snd (LRUCache_getWithLoader cfg now k w c)))) \<le> capacity cfg"
proof (cases "loaderExpireFunc cfg")
  case None
  then show ?thesis using assms(3) by (simp add: LRUCache_getWithLoader_def)
next
  case (Some f)
  obtain v expir er where f: "f k = (v, expir, er)" by (cases "f k")
  have "snd (LRUCache_getWithLoader cfg now k w c) = c
      \<or> snd (LRUCache_getWithLoader cfg now k w c) = snd (LRUCache_Set cfg now k v c)"
    using Some f by (auto simp: LRUCache_getWithLoader_def load_def split: prod.splits)
  then show ?thesis using assms(3) length_Set[OF assms, of now k v] by auto
qed

lemma length_Get:
  assumes "lru_inv c" and "0 < capacity cfg" and "int (length (evictList c)) \<le> capacity cfg"
  shows "int (length (evictList (snd (LRUCache_Get cfg now k c)))) \<le> capacity cfg"
    and "int (length (evictList (snd (LRUCache_GetIFPresent cfg now k c)))) \<le> capacity cfg"
proof -
  obtain r c1 where g: "LRUCache_get cfg now k False c = (r, c1)"
    by (cases "LRUCache_get cfg now k False c")
  have i1: "lru_inv c1" using lru_inv_get[OF assms(1), of cfg now k False] g by simp
  have l1: "int (length (evictList c1)) \<le> capacity cfg"
    using length_get[of cfg now k False c] g assms(3) by simp
  have "snd (LRUCache_Get cfg now k c) = c1
      \<or> snd (LRUCache_Get cfg now k c) = snd (LRUCache_getWithLoader cfg now k True c1)"
    by (auto simp: LRUCache_Get_def g split: prod.splits)
  then show "int (length (evictList (snd (LRUCache_Get cfg now k c)))) \<le> capacity cfg"
    using l1 length_getWithLoader[OF i1 assms(2) l1, of now k True] by auto
  have "snd (LRUCache_GetIFPresent cfg now k c) = c1
      \<or> snd (LRUCache_GetIFPresent cfg now k c) = snd (LRUCache_getWithLoader cfg now k False c1)"
    by (auto simp: LRUCache_GetIFPresent_def g split: prod.splits)
  then show "int (length (evictList (snd (LRUCache_GetIFPresent cfg now k c)))) \<le> capacity cfg"
    using l1 length_getWithLoader[OF i1 assms(2) l1, of now k False] by auto
qed

lemma length_step:
  assumes "lru_inv c" and "0 < capacity cfg" and "int (length (evictList c)) \<le> capacity cfg"
  shows "int (length (evictList (lru_step cfg op c))) \<le> capacity cfg"
proof (cases op)
  case (OpSet now k v)
  then show ?thesis using length_Set[OF assms] by simp
next
  case (OpSetWithExpire now k v d)
  then show ?thesis using length_set(1)[OF assms] by (simp add: evictList_SetWithExpire)
next
  case (OpGet now k)
  then show ?thesis using length_Get(1)[OF assms] by simp
next
  case (OpGetIFPresent now k)
  then show ?thesis using length_Get(2)[OF assms] by simp
next
  case (OpRemove k)
  have "int (length (evictList (LRUCache_removeElement cfg e c))) \<le> capacity cfg" for e
    using length_removeElement[of cfg e c] assms(3) by linarith
  then show ?thesis using OpRemove assms(3)
    by (auto simp: LRUCache_Remove_def LRUCache_remove_def split: option.splits)
next
  case (OpEvict n)
  then show ?thesis using length_evict_loop[of cfg "nat n" c] assms(3)
    by (simp add: LRUCache_evict_def)
next
  case OpPurge
  then show ?thesis using assms(2) by (simp add: LRUCache_Purge_def LRUCache_init_def)
qed

lemma length_fold:
  "lru_inv c \<Longrightarrow> 0 < capacity cfg \<Longrightarrow> int (length (evictList c)) \<le> capacity cfg
     \<Longrightarrow> int (length (evictList (fold (lru_step cfg) ops c))) \<le> capacity cfg"
proof (induction ops arbitrary: c)
  case Nil
  then show ?case by simp
next
  case (Cons op ops)
  show ?case
    using Cons.IH[OF lru_inv_step[OF Cons.prems(1)] Cons.prems(2) length_step[OF Cons.prems]]
    by simp
qed

text \<open>
  The recency variant keeps the bound of claim C1: with a positive capacity, \<open>Len\<close> never
  exceeds the capacity after any sequence of operations on a new cache, and a \<open>Set\<close> on a
  cache that holds exactly \<open>capacity\<close> entries leaves it with exactly \<open>capacity\<close> entries.
\<close>

lemma LRUCache_capacity_kept:
  assumes "0 < capacity cfg" and "c = lru_run cfg ops c0"
  shows "LRUCache_Len c \<le> capacity cfg
       \<and> (LRUCache_Len c = capacity cfg
            \<longrightarrow> LRUCache_Len (snd (LRUCache_Set cfg now k v c)) = capacity cfg)"
proof -
  have i: "lru_inv c" unfolding assms(2) by (rule lru_inv_run)
  have "int (length (evictList c)) \<le> capacity cfg"
    unfolding assms(2) lru_run_def
    using assms(1) by (intro length_fold lru_inv_init) (simp_all add: LRUCache_init_def)
  moreover have "snd (LRUCache_Set cfg now k v c) = snd (LRUCache_set cfg now k v c)"
    by (simp add: LRUCache_Set_def split: prod.splits)
  ultimately show ?thesis
    using lru_inv_length[OF i] lru_inv_length[OF lru_inv_set[OF i, of cfg now k v]]
          length_set(2)[OF i assms(1), of now k v]
    by (simp add: LRUCache_Len_def)
qed

end
